theory Spec2Isabelle
  imports Complex_Main "HOL-Library.Word" "HOL-Library.Monad_Syntax"
begin

unbundle bit_operations_syntax

section \<open>The PostGIS raster WKB reader of Mapnik's pgraster plugin\<close>

text \<open>
  A shallow embedding of \<^verbatim>\<open>src/plugins/input/pgraster/pgraster_wkb_reader.cpp\<close>.

  The reader walks a byte buffer with a raw pointer \<^verbatim>\<open>ptr_\<close> and never compares it
  with the end of the buffer. Here the buffer is a list of bytes and the pointer an
  offset into it. Where C++ leaves the behaviour of the source undefined (a read
  outside the buffer, a signed \<^verbatim>\<open>int\<close> overflow, a store outside the pixel buffer,
  the use of an uninitialised variable) the model returns \<open>None\<close>: a value of type
  \<open>'a ub\<close> is \<open>Some r\<close> when the source runs to a defined result \<open>r\<close> and \<open>None\<close>
  when the run has undefined behaviour. \<open>None\<close> is not a failure the source reports.
\<close>

type_synonym 'a ub = "'a option"

type_synonym uint8_t = "8 word"
type_synonym uint16_t = "16 word"
type_synonym uint32_t = "32 word"
type_synonym uint64_t = "64 word"

subsection \<open>IEEE 754 binary64 values\<close>

text \<open>
  A \<^verbatim>\<open>double\<close> is a finite value with its sign (so that both zeros exist), an
  infinity, or a NaN. \<open>Finite s m\<close> is \<open>(-1)\<^sup>s \<cdot> m\<close> with \<open>m \<ge> 0\<close>. Arithmetic
  computes the exact rational result and rounds it to the nearest binary64 value,
  ties to even (the default rounding mode).
\<close>

datatype double = Finite bool rat | Infinity bool | NaN

definition pow2 :: "int \<Rightarrow> rat" where
  "pow2 k = (if 0 \<le> k then 2 ^ nat k else 1 / 2 ^ nat (- k))"

definition double_of_bits :: "uint64_t \<Rightarrow> double" where
  "double_of_bits w =
     (let s = bit w 63;
          e = unat (drop_bit 52 w AND 0x7FF);
          f = unat (w AND 0xFFFFFFFFFFFFF)
      in if e = 2047 then (if f = 0 then Infinity s else NaN)
         else if e = 0 then Finite s (of_nat f * pow2 (- 1074))
         else Finite s (of_nat (2 ^ 52 + f) * pow2 (int e - 1075)))"

fun bit_length :: "nat \<Rightarrow> nat" where
  \<comment> \<open>the number of binary digits of \<open>n\<close>\<close>
  "bit_length n = (if n = 0 then 0 else Suc (bit_length (n div 2)))"

definition ilog2 :: "rat \<Rightarrow> int" where
  \<comment> \<open>\<open>\<lfloor>log\<^sub>2 q\<rfloor>\<close> for \<open>q > 0\<close>\<close>
  "ilog2 q =
     (if 1 \<le> q then int (bit_length (nat \<lfloor>q\<rfloor>)) - 1
      else - int (bit_length (nat (\<lceil>1 / q\<rceil> - 1))))"

definition round_half_even :: "rat \<Rightarrow> int" where
  "round_half_even t =
     (let f = \<lfloor>t\<rfloor>; r = t - of_int f
      in if r < 1 / 2 then f else if 1 / 2 < r then f + 1
         else if even f then f else f + 1)"

definition round_double :: "bool \<Rightarrow> rat \<Rightarrow> double" where
  \<comment> \<open>the binary64 value nearest to \<open>(-1)\<^sup>s \<cdot> q\<close>, for \<open>q \<ge> 0\<close>\<close>
  "round_double s q =
     (if q = 0 then Finite s 0
      else let e = max (ilog2 q) (- 1022);
               ulp = pow2 (e - 52);
               r = of_int (round_half_even (q / ulp)) * ulp
           in if pow2 1024 \<le> r then Infinity s else Finite s r)"

definition signed :: "bool \<Rightarrow> rat \<Rightarrow> rat" where
  "signed s m = (if s then - m else m)"

definition double_of_int :: "int \<Rightarrow> double" where
  "double_of_int i = round_double (i < 0) (of_int \<bar>i\<bar>)"

fun dmul :: "double \<Rightarrow> double \<Rightarrow> double" where
  "dmul NaN _ = NaN"
| "dmul _ NaN = NaN"
| "dmul (Infinity s) (Infinity t) = Infinity (s \<noteq> t)"
| "dmul (Infinity s) (Finite t n) = (if n = 0 then NaN else Infinity (s \<noteq> t))"
| "dmul (Finite s m) (Infinity t) = (if m = 0 then NaN else Infinity (s \<noteq> t))"
| "dmul (Finite s m) (Finite t n) = round_double (s \<noteq> t) (m * n)"

fun dadd :: "double \<Rightarrow> double \<Rightarrow> double" where
  "dadd NaN _ = NaN"
| "dadd _ NaN = NaN"
| "dadd (Infinity s) (Infinity t) = (if s = t then Infinity s else NaN)"
| "dadd (Infinity s) (Finite _ _) = Infinity s"
| "dadd (Finite _ _) (Infinity t) = Infinity t"
| "dadd (Finite s m) (Finite t n) =
     (let v = signed s m + signed t n
      in if v = 0 then Finite (s \<and> t) 0 else round_double (v < 0) \<bar>v\<bar>)"

fun dless :: "double \<Rightarrow> double \<Rightarrow> bool" where
  "dless NaN _ = False"
| "dless _ NaN = False"
| "dless (Infinity s) (Infinity t) = (s \<and> \<not> t)"
| "dless (Infinity s) (Finite _ _) = s"
| "dless (Finite _ _) (Infinity t) = (\<not> t)"
| "dless (Finite s m) (Finite t n) = (signed s m < signed t n)"

fun dnonzero :: "double \<Rightarrow> bool" where
  \<comment> \<open>a \<^verbatim>\<open>double\<close> used as a condition: true unless it is a zero\<close>
  "dnonzero (Finite s m) = (m \<noteq> 0)"
| "dnonzero _ = True"

subsection \<open>Primitive reads\<close>

text \<open>
  Each read takes the buffer and the cursor and returns the value with the advanced
  cursor. The source dereferences the pointer without a check, so the read is defined
  only where all its bytes lie inside the buffer.
\<close>

definition read_uint8 :: "uint8_t list \<Rightarrow> nat \<Rightarrow> (uint8_t \<times> nat) ub" where
  "read_uint8 buf p = (if p < length buf then Some (buf ! p, p + 1) else None)"

definition read_uint16 :: "uint8_t list \<Rightarrow> uint8_t \<Rightarrow> nat \<Rightarrow> (uint16_t \<times> nat) ub" where
  "read_uint16 buf littleEndian p =
     (if p + 2 \<le> length buf then
        Some (if littleEndian \<noteq> 0
              then ucast (buf ! p) OR push_bit 8 (ucast (buf ! (p + 1)))
              else push_bit 8 (ucast (buf ! p)) OR ucast (buf ! (p + 1)), p + 2)
      else None)"

definition read_float64 :: "uint8_t list \<Rightarrow> uint8_t \<Rightarrow> nat \<Rightarrow> (double \<times> nat) ub" where
  "read_float64 buf littleEndian p =
     (if p + 8 \<le> length buf then
        (let b = (\<lambda>k. (ucast (buf ! (p + k) AND 0xff) :: uint64_t));
             i = (if littleEndian \<noteq> 0
                  then b 0 OR push_bit 8 (b 1) OR push_bit 16 (b 2) OR push_bit 24 (b 3)
                       OR push_bit 32 (b 4) OR push_bit 40 (b 5) OR push_bit 48 (b 6)
                       OR push_bit 56 (b 7)
                  else b 7 OR push_bit 8 (b 6) OR push_bit 16 (b 5) OR push_bit 24 (b 4)
                       OR push_bit 32 (b 3) OR push_bit 40 (b 2) OR push_bit 48 (b 1)
                       OR push_bit 56 (b 0))
         in Some (double_of_bits i, p + 8))
      else None)"

definition read_uint32 :: "uint8_t list \<Rightarrow> uint8_t \<Rightarrow> nat \<Rightarrow> (uint32_t \<times> nat) ub" where
  "read_uint32 buf littleEndian p =
     (if p + 4 \<le> length buf then
        (let b = (\<lambda>k. (ucast (buf ! (p + k) AND 0xff) :: uint32_t))
         in Some (if littleEndian \<noteq> 0
                  then b 0 OR push_bit 8 (b 1) OR push_bit 16 (b 2) OR push_bit 24 (b 3)
                  else b 3 OR push_bit 8 (b 2) OR push_bit 16 (b 1) OR push_bit 24 (b 0),
                  p + 4))
      else None)"

definition read_int32 :: "uint8_t list \<Rightarrow> uint8_t \<Rightarrow> nat \<Rightarrow> (int \<times> nat) ub" where
  \<comment> \<open>the \<^verbatim>\<open>uint32_t\<close> converted to \<^verbatim>\<open>int32_t\<close>: its two's complement reading\<close>
  "read_int32 buf littleEndian p =
     (case read_uint32 buf littleEndian p of
        None \<Rightarrow> None
      | Some (v, p') \<Rightarrow> Some (sint v, p'))"

subsection \<open>Band types and flags\<close>

definition PT_8BSI :: int where "PT_8BSI = 3"
definition PT_8BUI :: int where "PT_8BUI = 4"

definition BANDTYPE_PIXTYPE_MASK :: uint8_t where "BANDTYPE_PIXTYPE_MASK = 0x0F"
definition BANDTYPE_FLAG_OFFDB :: uint8_t where "BANDTYPE_FLAG_OFFDB = push_bit 7 1"
definition BANDTYPE_FLAG_HASNODATA :: uint8_t where "BANDTYPE_FLAG_HASNODATA = push_bit 6 1"

definition BANDTYPE_PIXTYPE :: "uint8_t \<Rightarrow> int" where
  "BANDTYPE_PIXTYPE x = uint (x AND BANDTYPE_PIXTYPE_MASK)"

definition BANDTYPE_IS_OFFDB :: "uint8_t \<Rightarrow> int" where
  "BANDTYPE_IS_OFFDB x = uint (x AND BANDTYPE_FLAG_OFFDB)"

definition BANDTYPE_HAS_NODATA :: "uint8_t \<Rightarrow> int" where
  "BANDTYPE_HAS_NODATA x = uint (x AND BANDTYPE_FLAG_HASNODATA)"

subsection \<open>The raster, the reader and the diagnostics\<close>

text \<open>
  Modelled from the spec: \<^verbatim>\<open>mapnik::box2d\<close>, \<^verbatim>\<open>mapnik::raster\<close>,
  \<^verbatim>\<open>mapnik::image_data_32\<close>, the logging macros and the reader's class declaration
  (\<^verbatim>\<open>pgraster_wkb_reader.hpp\<close>) are not among the source files. The extent is the
  rectangle whose bounds are the minimum and the maximum of the two corners it is
  built from (spec, sections 3 and 8). The raster owns the extent, the width, the
  height, the pixel buffer (4 bytes per pixel, row-major, seen here as bytes, as
  \<^verbatim>\<open>getBytes()\<close> does) and the premultiplied-alpha flag. The reader's fields
  \<^verbatim>\<open>numBands_\<close>, \<^verbatim>\<open>width_\<close> and \<^verbatim>\<open>height_\<close> are 16-bit unsigned
  (spec, section 3), and the cursor starts at offset 0. A diagnostic is one message
  handed to \<^verbatim>\<open>MAPNIK_LOG_WARN\<close> or \<^verbatim>\<open>MAPNIK_LOG_DEBUG\<close>, with the values it prints.
\<close>

record box2d =
  minx :: double
  miny :: double
  maxx :: double
  maxy :: double

definition box2d_init :: "double \<Rightarrow> double \<Rightarrow> double \<Rightarrow> double \<Rightarrow> box2d" where
  "box2d_init x0 y0 x1 y1 =
     \<lparr>minx = (if dless x0 x1 then x0 else x1), miny = (if dless y0 y1 then y0 else y1),
      maxx = (if dless x0 x1 then x1 else x0), maxy = (if dless y0 y1 then y1 else y0)\<rparr>"

record raster =
  ext :: box2d
  rwidth :: nat
  rheight :: nat
  data :: "uint8_t list"
  premultiplied_alpha :: bool

definition new_raster :: "box2d \<Rightarrow> nat \<Rightarrow> nat \<Rightarrow> raster" where
  "new_raster e w h =
     \<lparr>ext = e, rwidth = w, rheight = h, data = replicate (4 * (w * h)) 0,
      premultiplied_alpha = False\<rparr>"

definition image_set :: "uint8_t list \<Rightarrow> uint32_t \<Rightarrow> uint8_t list" where
  \<comment> \<open>\<^verbatim>\<open>image.set(v)\<close>: every 32-bit pixel becomes \<open>v\<close>, stored least significant byte first\<close>
  "image_set img v = map (\<lambda>i. ucast (drop_bit (8 * (i mod 4)) v)) [0..<length img]"

datatype diag =
    Debug_header uint16_t double double double double double double int uint16_t uint16_t
  | Debug_extent box2d
  | Warn_version uint16_t
  | Warn_rotation
  | Warn_bands uint16_t
  | Debug_band_type int int int
  | Warn_offline_band
  | Warn_band_type uint8_t
  | Warn_nodata
  | Debug_band nat int int int
  | Warn_offline_band_n nat
  | Warn_band_type_n nat uint8_t
  | Warn_nodataval nat uint8_t uint8_t

record reader =
  wkb :: "uint8_t list"
  ptr :: nat
  numBands :: uint16_t
  width :: uint16_t
  height :: uint16_t
  diags :: "diag list"

definition new_reader :: "uint8_t list \<Rightarrow> reader" where
  "new_reader buf = \<lparr>wkb = buf, ptr = 0, numBands = 0, width = 0, height = 0, diags = []\<rparr>"

definition log_msg :: "diag \<Rightarrow> reader \<Rightarrow> reader" where
  "log_msg m rd = rd\<lparr>diags := diags rd @ [m]\<rparr>"

subsection \<open>The pixel loops\<close>

definition INT_MAX :: nat where "INT_MAX = 2147483647"

definition pixel_off :: "nat \<Rightarrow> nat \<Rightarrow> nat \<Rightarrow> nat ub" where
  \<comment> \<open>\<^verbatim>\<open>int off = y * width_ * ps + x * ps\<close> with \<^verbatim>\<open>ps = 4\<close>, in 32-bit \<^verbatim>\<open>int\<close>; every
      operand is non-negative, so some step overflows exactly when the sum exceeds \<^verbatim>\<open>INT_MAX\<close>\<close>
  "pixel_off y w x = (if y * w * 4 + x * 4 \<le> INT_MAX then Some (y * w * 4 + x * 4) else None)"

definition store_byte :: "uint8_t list \<Rightarrow> nat \<Rightarrow> uint8_t \<Rightarrow> uint8_t list ub" where
  \<comment> \<open>\<^verbatim>\<open>image_data[i] = val\<close>, the index an \<^verbatim>\<open>int\<close>\<close>
  "store_byte img i val = (if i \<le> INT_MAX \<and> i < length img then Some (img[i := val]) else None)"

function gray_cols ::
  "uint8_t list \<Rightarrow> nat \<Rightarrow> nat \<Rightarrow> nat \<Rightarrow> nat \<times> uint8_t list \<Rightarrow> (nat \<times> uint8_t list) ub" where
  "gray_cols buf w y x (p, img) =
     (if x < w then
        do {
          (val, p') \<leftarrow> read_uint8 buf p;
          off \<leftarrow> pixel_off y w x;
          img1 \<leftarrow> store_byte img (off + 0) val;
          img2 \<leftarrow> store_byte img1 (off + 1) val;
          img3 \<leftarrow> store_byte img2 (off + 2) val;
          gray_cols buf w y (x + 1) (p', img3)
        }
      else Some (p, img))"
  by pat_completeness auto
termination
  by (relation "measure (\<lambda>(buf, w, y, x, s). w - x)") auto

function gray_rows ::
  "uint8_t list \<Rightarrow> nat \<Rightarrow> nat \<Rightarrow> nat \<Rightarrow> nat \<times> uint8_t list \<Rightarrow> (nat \<times> uint8_t list) ub" where
  "gray_rows buf w h y s =
     (if y < h then
        do {
          s' \<leftarrow> gray_cols buf w y 0 s;
          gray_rows buf w h (y + 1) s'
        }
      else Some s)"
  by pat_completeness auto
termination
  by (relation "measure (\<lambda>(buf, w, h, y, s). h - y)") auto

function rgb_cols ::
  "uint8_t list \<Rightarrow> nat \<Rightarrow> nat \<Rightarrow> nat \<Rightarrow> nat \<Rightarrow> nat \<times> uint8_t list \<Rightarrow> (nat \<times> uint8_t list) ub" where
  "rgb_cols buf bn w y x (p, img) =
     (if x < w then
        do {
          (val, p') \<leftarrow> read_uint8 buf p;
          off \<leftarrow> pixel_off y w x;
          img1 \<leftarrow> store_byte img (off + bn) val;
          rgb_cols buf bn w y (x + 1) (p', img1)
        }
      else Some (p, img))"
  by pat_completeness auto
termination
  by (relation "measure (\<lambda>(buf, bn, w, y, x, s). w - x)") auto

function rgb_rows ::
  "uint8_t list \<Rightarrow> nat \<Rightarrow> nat \<Rightarrow> nat \<Rightarrow> nat \<Rightarrow> nat \<times> uint8_t list \<Rightarrow> (nat \<times> uint8_t list) ub" where
  "rgb_rows buf bn w h y s =
     (if y < h then
        do {
          s' \<leftarrow> rgb_cols buf bn w y 0 s;
          rgb_rows buf bn w h (y + 1) s'
        }
      else Some s)"
  by pat_completeness auto
termination
  by (relation "measure (\<lambda>(buf, bn, w, h, y, s). h - y)") auto

subsection \<open>read\_grayscale\<close>

definition read_grayscale :: "reader \<Rightarrow> raster \<Rightarrow> (reader \<times> raster) ub" where
  "read_grayscale rd0 raster0 =
     (let raster = raster0\<lparr>data := image_set (data raster0) 0xffffffff,
                           premultiplied_alpha := True\<rparr>
      in do {
        (type, p1) \<leftarrow> read_uint8 (wkb rd0) (ptr rd0);
        let pixtype = BANDTYPE_PIXTYPE type;
            offline = (if BANDTYPE_IS_OFFDB type \<noteq> 0 then 1 else 0 :: int);
            hasnodata = (if BANDTYPE_HAS_NODATA type \<noteq> 0 then 1 else 0 :: int);
            rd = log_msg (Debug_band_type pixtype offline hasnodata) (rd0\<lparr>ptr := p1\<rparr>)
        in if offline \<noteq> 0 then Some (log_msg Warn_offline_band rd, raster)
           else if pixtype > PT_8BUI \<or> pixtype < PT_8BSI
           then Some (log_msg (Warn_band_type type) rd, raster)
           else do {
             (nodataval, p2) \<leftarrow> read_uint8 (wkb rd) (ptr rd);
             let rd = (if hasnodata \<noteq> 0 then log_msg Warn_nodata (rd\<lparr>ptr := p2\<rparr>)
                       else rd\<lparr>ptr := p2\<rparr>);
             (p3, img) \<leftarrow> gray_rows (wkb rd) (unat (width rd)) (unat (height rd)) 0
                            (ptr rd, data raster);
             Some (rd\<lparr>ptr := p3\<rparr>, raster\<lparr>data := img\<rparr>)
           }
      })"

subsection \<open>read\_rgb\<close>

text \<open>
  The body of the band loop. The third component of the state is the local
  \<^verbatim>\<open>nodataval\<close>: \<open>None\<close> until band 0 assigns it. The source compares a later band's
  nodata byte with it also when band 0 was skipped, which reads an uninitialised
  variable.
\<close>

definition rgb_band ::
  "nat \<Rightarrow> reader \<times> raster \<times> uint8_t option \<Rightarrow> (reader \<times> raster \<times> uint8_t option) ub" where
  "rgb_band bn s =
     (case s of (rd0, raster, nodataval) \<Rightarrow>
      do {
        (type, p1) \<leftarrow> read_uint8 (wkb rd0) (ptr rd0);
        let pixtype = BANDTYPE_PIXTYPE type;
            offline = (if BANDTYPE_IS_OFFDB type \<noteq> 0 then 1 else 0 :: int);
            hasnodata = (if BANDTYPE_HAS_NODATA type \<noteq> 0 then 1 else 0 :: int);
            rd = log_msg (Debug_band bn pixtype offline hasnodata) (rd0\<lparr>ptr := p1\<rparr>)
        in if offline \<noteq> 0 then Some (log_msg (Warn_offline_band_n bn) rd, raster, nodataval)
           else if pixtype > PT_8BUI \<or> pixtype < PT_8BSI
           then Some (log_msg (Warn_band_type_n bn type) rd, raster, nodataval)
           else do {
             (tmp, p2) \<leftarrow> read_uint8 (wkb rd) (ptr rd);
             (rd, nodataval) \<leftarrow>
               (if bn = 0 then Some (rd\<lparr>ptr := p2\<rparr>, Some tmp)
                else case nodataval of
                  None \<Rightarrow> None
                | Some v \<Rightarrow>
                    Some (if tmp \<noteq> v then log_msg (Warn_nodataval bn tmp v) (rd\<lparr>ptr := p2\<rparr>)
                          else rd\<lparr>ptr := p2\<rparr>, Some v));
             (p3, img) \<leftarrow> rgb_rows (wkb rd) bn (unat (width rd)) (unat (height rd)) 0
                            (ptr rd, data raster);
             Some (rd\<lparr>ptr := p3\<rparr>, raster\<lparr>data := img\<rparr>, nodataval)
           }
      })"

function rgb_bands ::
  "nat \<Rightarrow> nat \<Rightarrow> reader \<times> raster \<times> uint8_t option \<Rightarrow> (reader \<times> raster \<times> uint8_t option) ub" where
  "rgb_bands nb bn s =
     (if bn < nb then
        do {
          s' \<leftarrow> rgb_band bn s;
          rgb_bands nb (bn + 1) s'
        }
      else Some s)"
  by pat_completeness auto
termination
  by (relation "measure (\<lambda>(nb, bn, s). nb - bn)") auto

definition read_rgb :: "reader \<Rightarrow> raster \<Rightarrow> (reader \<times> raster) ub" where
  "read_rgb rd raster0 =
     (let raster = raster0\<lparr>data := image_set (data raster0) 0xffffffff,
                           premultiplied_alpha := True\<rparr>
      in do {
        (rd', raster', nodataval) \<leftarrow> rgb_bands (unat (numBands rd)) 0 (rd, raster, None);
        Some (rd', raster')
      })"

subsection \<open>get\_raster\<close>

text \<open>
  The result is the returned \<^verbatim>\<open>raster_ptr\<close> (\<open>None\<close> for the null pointer) with the
  reader as the call leaves it.
\<close>

definition get_raster :: "reader \<Rightarrow> (raster option \<times> reader) ub" where
  "get_raster rd0 =
     do {
       (endian, p) \<leftarrow> read_uint8 (wkb rd0) (ptr rd0);
       (version, p) \<leftarrow> read_uint16 (wkb rd0) endian p;
       if version \<noteq> 0 then Some (None, log_msg (Warn_version version) (rd0\<lparr>ptr := p\<rparr>))
       else do {
         (nb, p) \<leftarrow> read_uint16 (wkb rd0) endian p;
         (scaleX, p) \<leftarrow> read_float64 (wkb rd0) endian p;
         (scaleY, p) \<leftarrow> read_float64 (wkb rd0) endian p;
         (ipX, p) \<leftarrow> read_float64 (wkb rd0) endian p;
         (ipY, p) \<leftarrow> read_float64 (wkb rd0) endian p;
         (skewX, p) \<leftarrow> read_float64 (wkb rd0) endian p;
         (skewY, p) \<leftarrow> read_float64 (wkb rd0) endian p;
         (srid, p) \<leftarrow> read_int32 (wkb rd0) endian p;
         (w, p) \<leftarrow> read_uint16 (wkb rd0) endian p;
         (h, p) \<leftarrow> read_uint16 (wkb rd0) endian p;
         let rd = log_msg (Debug_header nb scaleX scaleY ipX ipY skewX skewY srid w h)
                    (rd0\<lparr>ptr := p, numBands := nb, width := w, height := h\<rparr>)
         in if dnonzero skewX \<or> dnonzero skewY then Some (None, log_msg Warn_rotation rd)
            else
              let ext = box2d_init ipX ipY
                          (dadd ipX (dmul (double_of_int (uint w)) scaleX))
                          (dadd ipY (dmul (double_of_int (uint h)) scaleY));
                  rd = log_msg (Debug_extent ext) rd;
                  raster = new_raster ext (unat w) (unat h)
              in if nb = 1 then
                   do { (rd', r) \<leftarrow> read_grayscale rd raster; Some (Some r, rd') }
                 else if nb = 3 then
                   do { (rd', r) \<leftarrow> read_rgb rd raster; Some (Some r, rd') }
                 else Some (None, log_msg (Warn_bands nb) rd)
       }
     }"

definition decode :: "uint8_t list \<Rightarrow> (raster option \<times> reader) ub" where
  \<comment> \<open>a reader constructed on the buffer, then one call of \<^verbatim>\<open>get_raster\<close>\<close>
  "decode buf = get_raster (new_reader buf)"

subsection \<open>Notions used to state the properties\<close>

text \<open>
  \<open>fill C buf p k0 k1 img\<close> is the pixel buffer \<open>img\<close> in which the pixels
  \<open>k0 \<le> k < k1\<close> (in row-major order) have received, in every channel \<open>c\<close> with
  \<open>C c\<close>, the bytes of \<open>buf\<close> from offset \<open>p\<close> on, one byte per pixel.
\<close>

definition fill :: "(nat \<Rightarrow> bool) \<Rightarrow> uint8_t list \<Rightarrow> nat \<Rightarrow> nat \<Rightarrow> nat \<Rightarrow> uint8_t list \<Rightarrow> uint8_t list" where
  "fill C buf p k0 k1 img =
     map (\<lambda>i. if C (i mod 4) \<and> k0 \<le> i div 4 \<and> i div 4 < k1
              then buf ! (p + (i div 4 - k0)) else img ! i) [0..<length img]"

text \<open>
  The header fields of a buffer, as \<^verbatim>\<open>get_raster\<close> reads them: the byte at offset 0
  is the endianness flag, and a field at offset \<open>p\<close> is what the primitive read
  returns there.
\<close>

definition hdr_u16 :: "uint8_t list \<Rightarrow> nat \<Rightarrow> uint16_t" where
  "hdr_u16 buf p = (case read_uint16 buf (buf ! 0) p of Some (v, _) \<Rightarrow> v | None \<Rightarrow> 0)"

definition hdr_f64 :: "uint8_t list \<Rightarrow> nat \<Rightarrow> double" where
  "hdr_f64 buf p = (case read_float64 buf (buf ! 0) p of Some (v, _) \<Rightarrow> v | None \<Rightarrow> NaN)"

definition hdr_i32 :: "uint8_t list \<Rightarrow> nat \<Rightarrow> int" where
  "hdr_i32 buf p = (case read_int32 buf (buf ! 0) p of Some (v, _) \<Rightarrow> v | None \<Rightarrow> 0)"

definition version_of :: "uint8_t list \<Rightarrow> uint16_t" where "version_of buf = hdr_u16 buf 1"
definition bands_of :: "uint8_t list \<Rightarrow> uint16_t" where "bands_of buf = hdr_u16 buf 3"
definition scaleX_of :: "uint8_t list \<Rightarrow> double" where "scaleX_of buf = hdr_f64 buf 5"
definition scaleY_of :: "uint8_t list \<Rightarrow> double" where "scaleY_of buf = hdr_f64 buf 13"
definition ipX_of :: "uint8_t list \<Rightarrow> double" where "ipX_of buf = hdr_f64 buf 21"
definition ipY_of :: "uint8_t list \<Rightarrow> double" where "ipY_of buf = hdr_f64 buf 29"
definition skewX_of :: "uint8_t list \<Rightarrow> double" where "skewX_of buf = hdr_f64 buf 37"
definition skewY_of :: "uint8_t list \<Rightarrow> double" where "skewY_of buf = hdr_f64 buf 45"
definition srid_of :: "uint8_t list \<Rightarrow> int" where "srid_of buf = hdr_i32 buf 53"
definition width_of :: "uint8_t list \<Rightarrow> nat" where "width_of buf = unat (hdr_u16 buf 57)"
definition height_of :: "uint8_t list \<Rightarrow> nat" where "height_of buf = unat (hdr_u16 buf 59)"

definition header_ok :: "uint8_t list \<Rightarrow> bool" where
  \<comment> \<open>the 61 bytes of the header are there, the version is 0 and there is no skew\<close>
  "header_ok buf =
     (61 \<le> length buf \<and> version_of buf = 0 \<and>
      \<not> dnonzero (skewX_of buf) \<and> \<not> dnonzero (skewY_of buf))"

definition extent_of :: "uint8_t list \<Rightarrow> box2d" where
  "extent_of buf =
     box2d_init (ipX_of buf) (ipY_of buf)
       (dadd (ipX_of buf) (dmul (double_of_int (int (width_of buf))) (scaleX_of buf)))
       (dadd (ipY_of buf) (dmul (double_of_int (int (height_of buf))) (scaleY_of buf)))"

definition header_reader :: "uint8_t list \<Rightarrow> reader" where
  \<comment> \<open>the reader as \<^verbatim>\<open>get_raster\<close> has it when it reaches the \<^verbatim>\<open>switch\<close>\<close>
  "header_reader buf =
     log_msg (Debug_extent (extent_of buf))
       (log_msg (Debug_header (bands_of buf) (scaleX_of buf) (scaleY_of buf) (ipX_of buf)
                   (ipY_of buf) (skewX_of buf) (skewY_of buf) (srid_of buf)
                   (hdr_u16 buf 57) (hdr_u16 buf 59))
          ((new_reader buf)\<lparr>ptr := 61, numBands := bands_of buf,
                              width := hdr_u16 buf 57, height := hdr_u16 buf 59\<rparr>))"

definition white_raster :: "uint8_t list \<Rightarrow> raster" where
  \<comment> \<open>the raster of the header's size after \<^verbatim>\<open>image.set(0xffffffff)\<close>\<close>
  "white_raster buf =
     \<lparr>ext = extent_of buf, rwidth = width_of buf, rheight = height_of buf,
      data = replicate (4 * (width_of buf * height_of buf)) 0xff,
      premultiplied_alpha = True\<rparr>"

text \<open>
  Closed forms of the band decoders, on the cursor, the pixel bytes and (for the
  three-band loop) the remembered nodata value; the lemmas below relate them to
  \<^verbatim>\<open>read_grayscale\<close> and \<^verbatim>\<open>read_rgb\<close>.
\<close>

definition band_skipped :: "uint8_t \<Rightarrow> bool" where
  "band_skipped t =
     (BANDTYPE_IS_OFFDB t \<noteq> 0 \<or> BANDTYPE_PIXTYPE t > PT_8BUI \<or> BANDTYPE_PIXTYPE t < PT_8BSI)"

definition gray_core ::
  "uint8_t list \<Rightarrow> nat \<Rightarrow> nat \<Rightarrow> nat \<times> uint8_t list \<Rightarrow> (nat \<times> uint8_t list) option" where
  "gray_core buf w h s =
     (case s of (p, img) \<Rightarrow>
        if p < length buf then
          (if band_skipped (buf ! p) then Some (p + 1, img)
           else if p + 2 + w * h \<le> length buf \<and> w * h \<le> 536870912
           then Some (p + 2 + w * h, fill (\<lambda>c. c < 3) buf (p + 2) 0 (w * h) img)
           else None)
        else None)"

definition rgb_band_core ::
  "uint8_t list \<Rightarrow> nat \<Rightarrow> nat \<Rightarrow> nat \<Rightarrow> nat \<times> uint8_t list \<times> uint8_t option \<Rightarrow>
   (nat \<times> uint8_t list \<times> uint8_t option) option" where
  "rgb_band_core buf w h bn s =
     (case s of (p, img, nv) \<Rightarrow>
        if p < length buf then
          (if band_skipped (buf ! p) then Some (p + 1, img, nv)
           else if p + 2 + w * h \<le> length buf \<and> w * h \<le> 536870912 \<and> (bn = 0 \<or> nv \<noteq> None)
           then Some (p + 2 + w * h, fill (\<lambda>c. c = bn) buf (p + 2) 0 (w * h) img,
                      if bn = 0 then Some (buf ! (p + 1)) else nv)
           else None)
        else None)"

definition rgb_core ::
  "uint8_t list \<Rightarrow> nat \<Rightarrow> nat \<Rightarrow> nat \<times> uint8_t list \<Rightarrow>
   (nat \<times> uint8_t list \<times> uint8_t option) option" where
  "rgb_core buf w h s =
     (case s of (p, img) \<Rightarrow>
        rgb_band_core buf w h 0 (p, img, None) \<bind> rgb_band_core buf w h 1 \<bind>
        rgb_band_core buf w h 2)"

text \<open>Concrete inputs.\<close>

definition c8_input :: "uint8_t list" where
  "c8_input = [0, 0,0, 0,2,
     0x3F,0xF0,0,0,0,0,0,0,  0x3F,0xF0,0,0,0,0,0,0,
     0,0,0,0,0,0,0,0,  0,0,0,0,0,0,0,0,
     0,0,0,0,0,0,0,0,  0,0,0,0,0,0,0,0,
     0,0,0,0,  0,2, 0,1]"

definition scenario :: "uint8_t list" where
  "scenario = [0, 0,0, 0,1,
     0x3F,0xF0,0,0,0,0,0,0,  0x3F,0xF0,0,0,0,0,0,0,
     0,0,0,0,0,0,0,0,  0,0,0,0,0,0,0,0,
     0,0,0,0,0,0,0,0,  0,0,0,0,0,0,0,0,
     0,0,0,0,  0,2, 0,1,
     4, 0, 10, 20]"

definition gray_le_input :: "uint8_t list" where
  "gray_le_input = [1, 0,0, 1,0,
     0,0,0,0,0,0,0xF0,0x3F,  0,0,0,0,0,0,0xF0,0x3F,
     0,0,0,0,0,0,0,0,  0,0,0,0,0,0,0,0,
     0,0,0,0,0,0,0,0,  0,0,0,0,0,0,0,0,
     0xE6,0x10,0,0,  1,0, 2,0,
     0x43, 9, 200, 7]"


definition big_band :: "uint8_t list" where
  "big_band = 4 # 0 # replicate (65535 * 8193) 0"







definition offline_input :: "uint8_t list" where
  \<comment> \<open>the scenario of section 8 with the off-database bit set in the band tag\<close>
  "offline_input = [0, 0,0, 0,1,
     0x3F,0xF0,0,0,0,0,0,0,  0x3F,0xF0,0,0,0,0,0,0,
     0,0,0,0,0,0,0,0,  0,0,0,0,0,0,0,0,
     0,0,0,0,0,0,0,0,  0,0,0,0,0,0,0,0,
     0,0,0,0,  0,2, 0,1,
     0x84, 0, 10, 20]"

definition offline_reader :: reader where
  "offline_reader = \<lparr>wkb = [0x84, 0, 10, 20], ptr = 0, numBands = 3, width = 2, height = 1,
                      diags = []\<rparr>"

definition offline_raster :: raster where
  "offline_raster = \<lparr>ext = \<lparr>minx = Finite False 0, miny = Finite False 0,
                             maxx = Finite False 2, maxy = Finite False 1\<rparr>,
                      rwidth = 2, rheight = 1, data = [1, 2, 3, 4, 5, 6, 7, 8],
                      premultiplied_alpha = False\<rparr>"

definition c2_header :: "uint8_t list" where
  \<comment> \<open>big-endian, one band, scale \<open>(2, -2)\<close>, origin \<open>(0, 100)\<close>, no skew, 10 columns, 5 rows\<close>
  "c2_header = [0, 0,0, 0,1,
     0x40,0,0,0,0,0,0,0,  0xC0,0,0,0,0,0,0,0,
     0,0,0,0,0,0,0,0,  0x40,0x59,0,0,0,0,0,0,
     0,0,0,0,0,0,0,0,  0,0,0,0,0,0,0,0,
     0,0,0,0,  0,10, 0,5]"

definition c2_input :: "uint8_t list" where
  "c2_input = c2_header @ 4 # 0 # replicate 50 7"

definition truncated_input :: "uint8_t list" where
  \<comment> \<open>the scenario of section 8 without its last pixel byte\<close>
  "truncated_input = [0, 0,0, 0,1,
     0x3F,0xF0,0,0,0,0,0,0,  0x3F,0xF0,0,0,0,0,0,0,
     0,0,0,0,0,0,0,0,  0,0,0,0,0,0,0,0,
     0,0,0,0,0,0,0,0,  0,0,0,0,0,0,0,0,
     0,0,0,0,  0,2, 0,1,
     4, 0, 10]"

definition outcome :: "(raster option \<times> reader) ub \<Rightarrow> (raster option \<times> nat) option" where
  \<comment> \<open>what a call of \<^verbatim>\<open>get_raster\<close> leaves to its caller, the diagnostics apart: the
      returned pointer and the cursor\<close>
  "outcome res = map_option (\<lambda>(r, rd). (r, ptr rd)) res"

definition band_end :: "uint8_t list \<Rightarrow> nat \<Rightarrow> nat" where
  \<comment> \<open>the cursor after the band whose tag is at \<open>p\<close>: a skipped band takes its tag byte only,
      a processed band its tag, its nodata byte and its payload\<close>
  "band_end buf p =
     (if band_skipped (buf ! p) then p + 1 else p + 2 + width_of buf * height_of buf)"

primrec band_pos :: "uint8_t list \<Rightarrow> nat \<Rightarrow> nat" where
  \<comment> \<open>the cursor at which the tag of band \<open>b\<close> is read\<close>
  "band_pos buf 0 = 61"
| "band_pos buf (Suc b) = band_end buf (band_pos buf b)"

definition is_tag :: "uint8_t list \<Rightarrow> nat \<Rightarrow> bool" where
  \<comment> \<open>\<open>i\<close> is the offset of a band tag: of the one band of the one-band path, or of one of
      the three bands of the three-band path\<close>
  "is_tag buf i =
     (bands_of buf = 1 \<and> i = band_pos buf 0 \<or>
      bands_of buf = 3 \<and> (i = band_pos buf 0 \<or> i = band_pos buf 1 \<or> i = band_pos buf 2))"

definition nodata_at :: "uint8_t list \<Rightarrow> nat \<Rightarrow> nat \<Rightarrow> bool" where
  \<comment> \<open>\<open>i\<close> is the offset of the nodata byte of band \<open>b\<close>, a processed band\<close>
  "nodata_at buf b i = (i = band_pos buf b + 1 \<and> \<not> band_skipped (buf ! band_pos buf b))"

definition is_nodata :: "uint8_t list \<Rightarrow> nat \<Rightarrow> bool" where
  "is_nodata buf i =
     (bands_of buf = 1 \<and> nodata_at buf 0 i \<or>
      bands_of buf = 3 \<and> (nodata_at buf 0 i \<or> nodata_at buf 1 i \<or> nodata_at buf 2 i))"

definition band_agree :: "uint8_t list \<Rightarrow> uint8_t list \<Rightarrow> nat \<Rightarrow> nat \<Rightarrow> bool" where
  \<comment> \<open>two buffers agree on what is read of the band at \<open>p\<close> (of \<open>n\<close> pixels), the nodata
      byte apart: whether the band is skipped, and the payload of a processed band\<close>
  "band_agree buf' buf n p =
     ((p < length buf \<longrightarrow> band_skipped (buf' ! p) = band_skipped (buf ! p)) \<and>
      (\<not> band_skipped (buf ! p) \<longrightarrow>
         (\<forall>j<n. p + 2 + j < length buf \<longrightarrow> buf' ! (p + 2 + j) = buf ! (p + 2 + j))))"

declare gray_cols.simps [simp del] gray_rows.simps [simp del]
  rgb_cols.simps [simp del] rgb_rows.simps [simp del] rgb_bands.simps [simp del]
  bit_length.simps [simp del]

section \<open>Lemmas\<close>

subsection \<open>Pixel buffers\<close>

lemma image_set_white: "image_set img 0xffffffff = replicate (length img) 0xff"
proof (rule nth_equalityI)
  show "length (image_set img 0xffffffff) = length (replicate (length img) (0xff::uint8_t))"
    by (simp add: image_set_def)
next
  fix i assume "i < length (image_set img 0xffffffff)"
  then have i: "i < length img" by (simp add: image_set_def)
  have "i mod 4 = 0 \<or> i mod 4 = 1 \<or> i mod 4 = 2 \<or> i mod 4 = 3" by presburger
  then have "(ucast (drop_bit (8 * (i mod 4)) (0xffffffff :: uint32_t)) :: uint8_t) = 0xff"
    by (elim disjE) simp_all
  with i show "image_set img 0xffffffff ! i = replicate (length img) 0xff ! i"
    by (simp add: image_set_def)
qed

lemma length_fill [simp]: "length (fill C buf p k0 k1 img) = length img"
  by (simp add: fill_def)

lemma nth_fill:
  "i < length img \<Longrightarrow> fill C buf p k0 k1 img ! i =
     (if C (i mod 4) \<and> k0 \<le> i div 4 \<and> i div 4 < k1 then buf ! (p + (i div 4 - k0)) else img ! i)"
  by (simp add: fill_def)

lemma fill_empty: "k1 \<le> k0 \<Longrightarrow> fill C buf p k0 k1 img = img"
proof (rule nth_equalityI)
  show "length (fill C buf p k0 k1 img) = length img" by simp
next
  fix i assume a: "k1 \<le> k0" "i < length (fill C buf p k0 k1 img)"
  then show "fill C buf p k0 k1 img ! i = img ! i" by (auto simp: nth_fill)
qed

lemma fill_fill:
  assumes "k0 \<le> k1" "k1 \<le> k2"
  shows "fill C buf (p + (k1 - k0)) k1 k2 (fill C buf p k0 k1 img) = fill C buf p k0 k2 img"
proof (rule nth_equalityI)
  show "length (fill C buf (p + (k1 - k0)) k1 k2 (fill C buf p k0 k1 img)) = length (fill C buf p k0 k2 img)"
    by simp
next
  fix i assume "i < length (fill C buf (p + (k1 - k0)) k1 k2 (fill C buf p k0 k1 img))"
  then have i: "i < length img" by simp
  show "fill C buf (p + (k1 - k0)) k1 k2 (fill C buf p k0 k1 img) ! i = fill C buf p k0 k2 img ! i"
  proof (cases "k1 \<le> i div 4")
    case True
    then have idx: "p + (k1 - k0) + (i div 4 - k1) = p + (i div 4 - k0)" and ge: "k0 \<le> i div 4"
      and nlt: "\<not> i div 4 < k1"
      using assms by arith+
    show ?thesis using i by (simp add: nth_fill idx ge nlt True)
  next
    case False
    then have lt: "i div 4 < k1" "i div 4 < k2" using assms by arith+
    show ?thesis using i by (simp add: nth_fill lt False)
  qed
qed

lemma fill_step:
  assumes k: "k < k1" and len: "length img' = length img"
    and upd: "\<And>i. i < length img \<Longrightarrow>
                img' ! i = (if i div 4 = k \<and> C (i mod 4) then buf ! p else img ! i)"
  shows "fill C buf (p + 1) (k + 1) k1 img' = fill C buf p k k1 img"
proof (rule nth_equalityI)
  show "length (fill C buf (p + 1) (k + 1) k1 img') = length (fill C buf p k k1 img)"
    by (simp add: len)
next
  fix i assume "i < length (fill C buf (p + 1) (k + 1) k1 img')"
  then have i: "i < length img" by (simp add: len)
  then have i': "i < length img'" by (simp add: len)
  note L = nth_fill [OF i', of C buf "p + 1" "k + 1" k1]
  note R = nth_fill [OF i, of C buf p k k1]
  note U = upd [OF i]
  show "fill C buf (p + 1) (k + 1) k1 img' ! i = fill C buf p k k1 img ! i"
  proof (cases "i div 4 = k")
    case True
    then have n: "\<not> k + 1 \<le> i div 4" and r: "k \<le> i div 4" "i div 4 < k1" "i div 4 - k = 0"
      using k by arith+
    show ?thesis unfolding L R U using n r True k by simp
  next
    case False
    show ?thesis
    proof (cases "k \<le> i div 4")
      case True
      then have k1: "k + 1 \<le> i div 4" and idx: "p + 1 + (i div 4 - (k + 1)) = p + (i div 4 - k)"
        using False by arith+
      show ?thesis unfolding L R U using k1 True False idx by simp
    next
      case nle: False
      then have n: "\<not> k + 1 \<le> i div 4" by arith
      show ?thesis unfolding L R U using n nle False by simp
    qed
  qed
qed

lemma upd3_nth:
  assumes len: "4 * k + 3 < length img" and i: "i < length img"
  shows "img[4 * k := v, 4 * k + 1 := v, 4 * k + 2 := v] ! i =
           (if i div 4 = k \<and> i mod 4 < 3 then v else img ! i)"
proof -
  have c: "(i div 4 = k \<and> i mod 4 < 3) = (i = 4 * k \<or> i = 4 * k + 1 \<or> i = 4 * k + 2)"
    by presburger
  have "img[4 * k := v, 4 * k + 1 := v, 4 * k + 2 := v] ! i =
          (if i = 4 * k \<or> i = 4 * k + 1 \<or> i = 4 * k + 2 then v else img ! i)"
    using len i by (auto simp: nth_list_update)
  then show ?thesis by (simp only: c)
qed

lemma upd1_nth:
  assumes len: "4 * k + 3 < length img" and i: "i < length img" and bn: "bn < 4"
  shows "img[4 * k + bn := v] ! i = (if i div 4 = k \<and> i mod 4 = bn then v else img ! i)"
proof -
  have c: "(i div 4 = k \<and> i mod 4 = bn) = (i = 4 * k + bn)"
    using bn by presburger
  have "img[4 * k + bn := v] ! i = (if i = 4 * k + bn then v else img ! i)"
    using len i bn by (auto simp: nth_list_update)
  then show ?thesis by (simp only: c)
qed

subsection \<open>The pixel loops in closed form\<close>

lemma gray_cols_eq:
  assumes "x \<le> w" and "4 * (y * w + w) \<le> length img"
  shows "gray_cols buf w y x (p, img) =
     (if x < w \<longrightarrow> p + (w - x) \<le> length buf \<and> y * w + w \<le> 536870912
      then Some (p + (w - x), fill (\<lambda>c. c < 3) buf p (y * w + x) (y * w + w) img)
      else None)"
  using assms
proof (induction n \<equiv> "w - x" arbitrary: x p img)
  case 0
  then have "x = w" by simp
  then show ?case by (subst gray_cols.simps) (simp add: fill_empty)
next
  case (Suc n)
  then have xw: "x < w" by arith
  let ?k = "y * w + x"
  show ?case
  proof (cases "p < length buf \<and> ?k < 536870912")
    case False
    have "gray_cols buf w y x (p, img) = None"
      using xw False
      by (subst gray_cols.simps) (auto simp: read_uint8_def pixel_off_def INT_MAX_def)
    moreover have "\<not> (p + (w - x) \<le> length buf \<and> y * w + w \<le> 536870912)"
      using xw False by arith
    ultimately show ?thesis using xw by simp
  next
    case True
    let ?img3 = "img[4 * ?k := buf ! p, 4 * ?k + 1 := buf ! p, 4 * ?k + 2 := buf ! p]"
    have len3: "4 * ?k + 3 < length img" using xw Suc.prems by arith
    have off: "y * w * 4 + x * 4 = 4 * ?k" by simp
    have step: "gray_cols buf w y x (p, img) = gray_cols buf w y (x + 1) (p + 1, ?img3)"
      using xw True len3
      by (subst gray_cols.simps) (simp add: read_uint8_def pixel_off_def store_byte_def INT_MAX_def off)
    have n: "n = w - (x + 1)" using Suc.hyps(2) by arith
    have IH: "gray_cols buf w y (x + 1) (p + 1, ?img3) =
       (if x + 1 < w \<longrightarrow> p + 1 + (w - (x + 1)) \<le> length buf \<and> y * w + w \<le> 536870912
        then Some (p + 1 + (w - (x + 1)),
                   fill (\<lambda>c. c < 3) buf (p + 1) (y * w + (x + 1)) (y * w + w) ?img3)
        else None)"
      using xw Suc.prems by (intro Suc.hyps(1) [OF n]) simp_all
    have f: "fill (\<lambda>c. c < 3) buf (p + 1) (?k + 1) (y * w + w) ?img3 =
             fill (\<lambda>c. c < 3) buf p ?k (y * w + w) img"
    proof (rule fill_step)
      show "?k < y * w + w" using xw by simp
      show "length ?img3 = length img" by simp
      fix i assume "i < length img"
      then show "?img3 ! i = (if i div 4 = ?k \<and> i mod 4 < 3 then buf ! p else img ! i)"
        by (rule upd3_nth [OF len3])
    qed
    have c: "(x + 1 < w \<longrightarrow> p + 1 + (w - (x + 1)) \<le> length buf \<and> y * w + w \<le> 536870912)
           = (p + (w - x) \<le> length buf \<and> y * w + w \<le> 536870912)"
      using xw True by arith
    have e: "p + 1 + (w - (x + 1)) = p + (w - x)" "y * w + (x + 1) = ?k + 1" using xw by arith+
    have IH1: "gray_cols buf w y (x + 1) (p + 1, ?img3) =
       (if p + (w - x) \<le> length buf \<and> y * w + w \<le> 536870912
        then Some (p + 1 + (w - (x + 1)),
                   fill (\<lambda>c. c < 3) buf (p + 1) (y * w + (x + 1)) (y * w + w) ?img3)
        else None)"
      using IH by (simp only: c)
    have IH2: "gray_cols buf w y (x + 1) (p + 1, ?img3) =
       (if p + (w - x) \<le> length buf \<and> y * w + w \<le> 536870912
        then Some (p + (w - x), fill (\<lambda>c. c < 3) buf p ?k (y * w + w) img)
        else None)"
      using IH1 by (simp only: e f)
    show ?thesis unfolding step IH2 using xw by simp
  qed
qed

lemma rgb_cols_eq:
  assumes "x \<le> w" and "4 * (y * w + w) \<le> length img" and "bn < 4"
  shows "rgb_cols buf bn w y x (p, img) =
     (if x < w \<longrightarrow> p + (w - x) \<le> length buf \<and> y * w + w \<le> 536870912
      then Some (p + (w - x), fill (\<lambda>c. c = bn) buf p (y * w + x) (y * w + w) img)
      else None)"
  using assms
proof (induction n \<equiv> "w - x" arbitrary: x p img)
  case 0
  then have "x = w" by simp
  then show ?case by (subst rgb_cols.simps) (simp add: fill_empty)
next
  case (Suc n)
  then have xw: "x < w" by arith
  let ?k = "y * w + x"
  show ?case
  proof (cases "p < length buf \<and> ?k < 536870912")
    case False
    have "rgb_cols buf bn w y x (p, img) = None"
      using xw False
      by (subst rgb_cols.simps) (auto simp: read_uint8_def pixel_off_def INT_MAX_def)
    moreover have "\<not> (p + (w - x) \<le> length buf \<and> y * w + w \<le> 536870912)"
      using xw False by arith
    ultimately show ?thesis using xw by simp
  next
    case True
    let ?img3 = "img[4 * ?k + bn := buf ! p]"
    have len3: "4 * ?k + 3 < length img" using xw Suc.prems by arith
    have off: "y * w * 4 + x * 4 = 4 * ?k" by simp
    have step: "rgb_cols buf bn w y x (p, img) = rgb_cols buf bn w y (x + 1) (p + 1, ?img3)"
      using xw True len3 Suc.prems(3)
      by (subst rgb_cols.simps) (simp add: read_uint8_def pixel_off_def store_byte_def INT_MAX_def off)
    have n: "n = w - (x + 1)" using Suc.hyps(2) by arith
    have IH: "rgb_cols buf bn w y (x + 1) (p + 1, ?img3) =
       (if x + 1 < w \<longrightarrow> p + 1 + (w - (x + 1)) \<le> length buf \<and> y * w + w \<le> 536870912
        then Some (p + 1 + (w - (x + 1)),
                   fill (\<lambda>c. c = bn) buf (p + 1) (y * w + (x + 1)) (y * w + w) ?img3)
        else None)"
      using xw Suc.prems by (intro Suc.hyps(1) [OF n]) simp_all
    have f: "fill (\<lambda>c. c = bn) buf (p + 1) (?k + 1) (y * w + w) ?img3 =
             fill (\<lambda>c. c = bn) buf p ?k (y * w + w) img"
    proof (rule fill_step)
      show "?k < y * w + w" using xw by simp
      show "length ?img3 = length img" by simp
      fix i assume "i < length img"
      then show "?img3 ! i = (if i div 4 = ?k \<and> i mod 4 = bn then buf ! p else img ! i)"
        using Suc.prems(3) by (intro upd1_nth [OF len3])
    qed
    have c: "(x + 1 < w \<longrightarrow> p + 1 + (w - (x + 1)) \<le> length buf \<and> y * w + w \<le> 536870912)
           = (p + (w - x) \<le> length buf \<and> y * w + w \<le> 536870912)"
      using xw True by arith
    have e: "p + 1 + (w - (x + 1)) = p + (w - x)" "y * w + (x + 1) = ?k + 1" using xw by arith+
    have IH1: "rgb_cols buf bn w y (x + 1) (p + 1, ?img3) =
       (if p + (w - x) \<le> length buf \<and> y * w + w \<le> 536870912
        then Some (p + 1 + (w - (x + 1)),
                   fill (\<lambda>c. c = bn) buf (p + 1) (y * w + (x + 1)) (y * w + w) ?img3)
        else None)"
      using IH by (simp only: c)
    have IH2: "rgb_cols buf bn w y (x + 1) (p + 1, ?img3) =
       (if p + (w - x) \<le> length buf \<and> y * w + w \<le> 536870912
        then Some (p + (w - x), fill (\<lambda>c. c = bn) buf p ?k (y * w + w) img)
        else None)"
      using IH1 by (simp only: e f)
    show ?thesis unfolding step IH2 using xw by simp
  qed
qed


lemma rows_cond:
  fixes q w y d len B :: nat
  shows "((0 < w \<longrightarrow> q + w \<le> len \<and> y * w + w \<le> B) \<and>
          (0 < d \<and> 0 < w \<longrightarrow> q + w + d * w \<le> len \<and> y * w + w + d * w \<le> B))
       = (0 < w \<longrightarrow> q + (w + d * w) \<le> len \<and> y * w + w + d * w \<le> B)"
proof (cases "d = 0")
  case True
  then show ?thesis by auto
next
  case False
  then show ?thesis by auto
qed

lemma gray_rows_eq:
  assumes "y \<le> h" and "4 * (h * w) \<le> length img"
  shows "gray_rows buf w h y (q, img) =
     (if y < h \<and> 0 < w \<longrightarrow> q + (h - y) * w \<le> length buf \<and> h * w \<le> 536870912
      then Some (q + (h - y) * w, fill (\<lambda>c. c < 3) buf q (y * w) (h * w) img)
      else None)"
  using assms
proof (induction n \<equiv> "h - y" arbitrary: y q img)
  case 0
  then have "y = h" by simp
  then show ?case by (subst gray_rows.simps) (simp add: fill_empty)
next
  case (Suc n)
  then have yh: "y < h" by arith
  define d where "d = h - (y + 1)"
  have h: "h = y + 1 + d" using yh by (simp add: d_def)
  have hw: "h * w = y * w + w + d * w" by (simp add: h algebra_simps)
  have hy: "(h - y) * w = w + d * w" by (simp add: h algebra_simps)
  have len: "4 * (y * w + w) \<le> length img" using Suc.prems(2) hw by arith
  note cols = gray_cols_eq [of 0 w y img buf q, OF _ len, simplified]
  have n: "n = h - (y + 1)" using Suc.hyps(2) by arith
  let ?img1 = "fill (\<lambda>c. c < 3) buf q (y * w) (y * w + w) img"
  have IH: "gray_rows buf w h (y + 1) (q + w, ?img1) =
     (if y + 1 < h \<and> 0 < w \<longrightarrow> q + w + (h - (y + 1)) * w \<le> length buf \<and> h * w \<le> 536870912
      then Some (q + w + (h - (y + 1)) * w,
                 fill (\<lambda>c. c < 3) buf (q + w) ((y + 1) * w) (h * w) ?img1)
      else None)"
    using yh Suc.prems by (intro Suc.hyps(1) [OF n]) simp_all
  have ff: "fill (\<lambda>c. c < 3) buf (q + w) ((y + 1) * w) (h * w) ?img1 =
            fill (\<lambda>c. c < 3) buf q (y * w) (h * w) img"
  proof -
    have "fill (\<lambda>c. c < 3) buf (q + (y * w + w - y * w)) (y * w + w) (h * w) ?img1 =
          fill (\<lambda>c. c < 3) buf q (y * w) (h * w) img"
      by (rule fill_fill) (simp_all add: hw)
    moreover have "y * w + w - y * w = w" by simp
    moreover have "(y + 1) * w = y * w + w" by simp
    ultimately show ?thesis by (simp only:)
  qed
  have dd: "(y + 1 < h) = (0 < d)" "h - (y + 1) = d" by (simp_all add: h)
  show ?case
  proof (cases "0 < w \<longrightarrow> q + w \<le> length buf \<and> y * w + w \<le> 536870912")
    case False
    then have "gray_rows buf w h y (q, img) = None"
      using yh by (subst gray_rows.simps) (auto simp: cols)
    moreover have "\<not> (0 < w \<longrightarrow> q + (w + d * w) \<le> length buf \<and> y * w + w + d * w \<le> 536870912)"
      using False by auto
    ultimately show ?thesis using yh by (simp add: hw hy)
  next
    case True
    then have "gray_rows buf w h y (q, img) = gray_rows buf w h (y + 1) (q + w, ?img1)"
      using yh by (subst gray_rows.simps) (auto simp: cols)
    also have "\<dots> = (if 0 < d \<and> 0 < w \<longrightarrow> q + w + d * w \<le> length buf \<and> y * w + w + d * w \<le> 536870912
      then Some (q + (w + d * w), fill (\<lambda>c. c < 3) buf q (y * w) (h * w) img) else None)"
      unfolding IH ff dd by (simp add: hw add.assoc)
    also have "\<dots> = (if 0 < w \<longrightarrow> q + (w + d * w) \<le> length buf \<and> y * w + w + d * w \<le> 536870912
      then Some (q + (w + d * w), fill (\<lambda>c. c < 3) buf q (y * w) (h * w) img) else None)"
      using True rows_cond [of w q "length buf" y 536870912 d] by simp
    finally show ?thesis using yh by (simp add: hw hy)
  qed
qed
lemma rgb_rows_eq:
  assumes "y \<le> h" and "4 * (h * w) \<le> length img" and "bn < 4"
  shows "rgb_rows buf bn w h y (q, img) =
     (if y < h \<and> 0 < w \<longrightarrow> q + (h - y) * w \<le> length buf \<and> h * w \<le> 536870912
      then Some (q + (h - y) * w, fill (\<lambda>c. c = bn) buf q (y * w) (h * w) img)
      else None)"
  using assms
proof (induction n \<equiv> "h - y" arbitrary: y q img)
  case 0
  then have "y = h" by simp
  then show ?case by (subst rgb_rows.simps) (simp add: fill_empty)
next
  case (Suc n)
  then have yh: "y < h" by arith
  define d where "d = h - (y + 1)"
  have h: "h = y + 1 + d" using yh by (simp add: d_def)
  have hw: "h * w = y * w + w + d * w" by (simp add: h algebra_simps)
  have hy: "(h - y) * w = w + d * w" by (simp add: h algebra_simps)
  have len: "4 * (y * w + w) \<le> length img" using Suc.prems(2) hw by arith
  note cols = rgb_cols_eq [of 0 w y img bn buf q, OF _ len Suc.prems(3), simplified]
  have n: "n = h - (y + 1)" using Suc.hyps(2) by arith
  let ?img1 = "fill (\<lambda>c. c = bn) buf q (y * w) (y * w + w) img"
  have IH: "rgb_rows buf bn w h (y + 1) (q + w, ?img1) =
     (if y + 1 < h \<and> 0 < w \<longrightarrow> q + w + (h - (y + 1)) * w \<le> length buf \<and> h * w \<le> 536870912
      then Some (q + w + (h - (y + 1)) * w,
                 fill (\<lambda>c. c = bn) buf (q + w) ((y + 1) * w) (h * w) ?img1)
      else None)"
    using yh Suc.prems by (intro Suc.hyps(1) [OF n]) simp_all
  have ff: "fill (\<lambda>c. c = bn) buf (q + w) ((y + 1) * w) (h * w) ?img1 =
            fill (\<lambda>c. c = bn) buf q (y * w) (h * w) img"
  proof -
    have "fill (\<lambda>c. c = bn) buf (q + (y * w + w - y * w)) (y * w + w) (h * w) ?img1 =
          fill (\<lambda>c. c = bn) buf q (y * w) (h * w) img"
      by (rule fill_fill) (simp_all add: hw)
    moreover have "y * w + w - y * w = w" by simp
    moreover have "(y + 1) * w = y * w + w" by simp
    ultimately show ?thesis by (simp only:)
  qed
  have dd: "(y + 1 < h) = (0 < d)" "h - (y + 1) = d" by (simp_all add: h)
  show ?case
  proof (cases "0 < w \<longrightarrow> q + w \<le> length buf \<and> y * w + w \<le> 536870912")
    case False
    then have "rgb_rows buf bn w h y (q, img) = None"
      using yh by (subst rgb_rows.simps) (auto simp: cols)
    moreover have "\<not> (0 < w \<longrightarrow> q + (w + d * w) \<le> length buf \<and> y * w + w + d * w \<le> 536870912)"
      using False by auto
    ultimately show ?thesis using yh by (simp add: hw hy)
  next
    case True
    then have "rgb_rows buf bn w h y (q, img) = rgb_rows buf bn w h (y + 1) (q + w, ?img1)"
      using yh by (subst rgb_rows.simps) (auto simp: cols)
    also have "\<dots> = (if 0 < d \<and> 0 < w \<longrightarrow> q + w + d * w \<le> length buf \<and> y * w + w + d * w \<le> 536870912
      then Some (q + (w + d * w), fill (\<lambda>c. c = bn) buf q (y * w) (h * w) img) else None)"
      unfolding IH ff dd by (simp add: hw add.assoc)
    also have "\<dots> = (if 0 < w \<longrightarrow> q + (w + d * w) \<le> length buf \<and> y * w + w + d * w \<le> 536870912
      then Some (q + (w + d * w), fill (\<lambda>c. c = bn) buf q (y * w) (h * w) img) else None)"
      using True rows_cond [of w q "length buf" y 536870912 d] by simp
    finally show ?thesis using yh by (simp add: hw hy)
  qed
qed

subsection \<open>The header\<close>

lemma read_uint8_eq: "read_uint8 buf p = (if p < length buf then Some (buf ! p, p + 1) else None)"
  by (simp add: read_uint8_def)

lemma read_uint16_hdr:
  "read_uint16 buf (buf ! 0) p = (if p + 2 \<le> length buf then Some (hdr_u16 buf p, p + 2) else None)"
  by (simp add: hdr_u16_def read_uint16_def)

lemma read_float64_hdr:
  "read_float64 buf (buf ! 0) p = (if p + 8 \<le> length buf then Some (hdr_f64 buf p, p + 8) else None)"
  by (simp add: hdr_f64_def read_float64_def Let_def)

lemma read_int32_hdr:
  "read_int32 buf (buf ! 0) p = (if p + 4 \<le> length buf then Some (hdr_i32 buf p, p + 4) else None)"
  by (simp add: hdr_i32_def read_int32_def read_uint32_def Let_def)

lemmas hdr_fields = version_of_def bands_of_def scaleX_of_def scaleY_of_def ipX_of_def ipY_of_def
  skewX_of_def skewY_of_def srid_of_def width_of_def height_of_def

lemma header_reads:
  assumes "61 \<le> length buf"
  shows "read_uint16 buf (buf ! 0) 3 = Some (bands_of buf, 5)"
    and "read_float64 buf (buf ! 0) 5 = Some (scaleX_of buf, 13)"
    and "read_float64 buf (buf ! 0) 13 = Some (scaleY_of buf, 21)"
    and "read_float64 buf (buf ! 0) 21 = Some (ipX_of buf, 29)"
    and "read_float64 buf (buf ! 0) 29 = Some (ipY_of buf, 37)"
    and "read_float64 buf (buf ! 0) 37 = Some (skewX_of buf, 45)"
    and "read_float64 buf (buf ! 0) 45 = Some (skewY_of buf, 53)"
    and "read_int32 buf (buf ! 0) 53 = Some (srid_of buf, 57)"
    and "read_uint16 buf (buf ! 0) 57 = Some (hdr_u16 buf 57, 59)"
    and "read_uint16 buf (buf ! 0) 59 = Some (hdr_u16 buf 59, 61)"
  using assms by (simp_all add: read_uint16_hdr read_float64_hdr read_int32_hdr hdr_fields)

lemma version_reads:
  assumes "3 \<le> length buf"
  shows "read_uint8 buf 0 = Some (buf ! 0, 1)"
    and "read_uint16 buf (buf ! 0) 1 = Some (version_of buf, 3)"
  using assms by (auto simp add: read_uint8_def read_uint16_hdr hdr_fields)

lemmas eval_bind = Option.bind.bind_lunit prod.case

lemma get_raster_start:
  assumes "3 \<le> length buf"
  shows "decode buf =
     (if version_of buf \<noteq> 0
      then Some (None, log_msg (Warn_version (version_of buf)) ((new_reader buf)\<lparr>ptr := 3\<rparr>))
      else do {
         (nb, p) \<leftarrow> read_uint16 buf (buf ! 0) 3;
         (scaleX, p) \<leftarrow> read_float64 buf (buf ! 0) p;
         (scaleY, p) \<leftarrow> read_float64 buf (buf ! 0) p;
         (ipX, p) \<leftarrow> read_float64 buf (buf ! 0) p;
         (ipY, p) \<leftarrow> read_float64 buf (buf ! 0) p;
         (skewX, p) \<leftarrow> read_float64 buf (buf ! 0) p;
         (skewY, p) \<leftarrow> read_float64 buf (buf ! 0) p;
         (srid, p) \<leftarrow> read_int32 buf (buf ! 0) p;
         (w, p) \<leftarrow> read_uint16 buf (buf ! 0) p;
         (h, p) \<leftarrow> read_uint16 buf (buf ! 0) p;
         let rd = log_msg (Debug_header nb scaleX scaleY ipX ipY skewX skewY srid w h)
                    ((new_reader buf)\<lparr>ptr := p, numBands := nb, width := w, height := h\<rparr>)
         in if dnonzero skewX \<or> dnonzero skewY then Some (None, log_msg Warn_rotation rd)
            else
              let ext = box2d_init ipX ipY
                          (dadd ipX (dmul (double_of_int (uint w)) scaleX))
                          (dadd ipY (dmul (double_of_int (uint h)) scaleY));
                  rd = log_msg (Debug_extent ext) rd;
                  raster = new_raster ext (unat w) (unat h)
              in if nb = 1 then
                   do { (rd', r) \<leftarrow> read_grayscale rd raster; Some (Some r, rd') }
                 else if nb = 3 then
                   do { (rd', r) \<leftarrow> read_rgb rd raster; Some (Some r, rd') }
                 else Some (None, log_msg (Warn_bands nb) rd)
       })"
proof -
  have w: "wkb (new_reader buf) = buf" "ptr (new_reader buf) = 0"
    by (simp_all add: new_reader_def)
  show ?thesis
    unfolding decode_def get_raster_def w
    by (simp only: version_reads [OF assms] eval_bind)
qed

lemma decode_short: "length buf < 3 \<Longrightarrow> decode buf = None"
  by (cases "length buf = 0")
    (simp_all add: decode_def get_raster_def new_reader_def read_uint8_def read_uint16_def)

lemma decode_version:
  "3 \<le> length buf \<Longrightarrow> version_of buf \<noteq> 0 \<Longrightarrow>
   decode buf = Some (None, log_msg (Warn_version (version_of buf)) ((new_reader buf)\<lparr>ptr := 3\<rparr>))"
  by (simp only: get_raster_start simp_thms if_True)

lemma decode_truncated_header:
  assumes "3 \<le> length buf" "length buf < 61" "version_of buf = 0"
  shows "decode buf = None"
  unfolding get_raster_start [OF assms(1)] using assms(2,3)
  by (simp add: read_uint16_hdr read_float64_hdr read_int32_hdr)

lemma decode_header:
  assumes "header_ok buf"
  shows "decode buf =
     (if bands_of buf = 1 then
        do { (rd', r) \<leftarrow> read_grayscale (header_reader buf)
                           (new_raster (extent_of buf) (width_of buf) (height_of buf));
             Some (Some r, rd') }
      else if bands_of buf = 3 then
        do { (rd', r) \<leftarrow> read_rgb (header_reader buf)
                           (new_raster (extent_of buf) (width_of buf) (height_of buf));
             Some (Some r, rd') }
      else Some (None, log_msg (Warn_bands (bands_of buf)) (header_reader buf)))"
proof -
  from assms have len: "61 \<le> length buf" and v: "version_of buf = 0"
    and sk: "\<not> dnonzero (skewX_of buf)" "\<not> dnonzero (skewY_of buf)"
    by (simp_all add: header_ok_def)
  from len have len3: "3 \<le> length buf" by simp
  have u: "uint (hdr_u16 buf 57) = int (width_of buf)" "uint (hdr_u16 buf 59) = int (height_of buf)"
    "unat (hdr_u16 buf 57) = width_of buf" "unat (hdr_u16 buf 59) = height_of buf"
    by (simp_all add: width_of_def height_of_def)
  show ?thesis
    unfolding get_raster_start [OF len3]
    by (simp only: header_reads [OF len] eval_bind v sk Let_def u
        simp_thms if_True if_False header_reader_def [symmetric] extent_of_def [symmetric])
qed

lemma decode_rotation:
  assumes "61 \<le> length buf" "version_of buf = 0"
    "dnonzero (skewX_of buf) \<or> dnonzero (skewY_of buf)"
  shows "\<exists>rd. decode buf = Some (None, rd) \<and> ptr rd = 61 \<and> last (diags rd) = Warn_rotation"
proof -
  from assms(1) have len3: "3 \<le> length buf" by simp
  have "decode buf = Some (None, log_msg Warn_rotation
     (log_msg (Debug_header (bands_of buf) (scaleX_of buf) (scaleY_of buf) (ipX_of buf)
                   (ipY_of buf) (skewX_of buf) (skewY_of buf) (srid_of buf)
                   (hdr_u16 buf 57) (hdr_u16 buf 59))
          ((new_reader buf)\<lparr>ptr := 61, numBands := bands_of buf,
                              width := hdr_u16 buf 57, height := hdr_u16 buf 59\<rparr>)))"
    unfolding get_raster_start [OF len3]
    by (simp only: header_reads [OF assms(1)] eval_bind assms(2,3) Let_def
        simp_thms if_True if_False)
  then show ?thesis by (simp add: log_msg_def)
qed

subsection \<open>The band decoders in closed form\<close>

lemma gray_rows_all:
  assumes "length img = 4 * (w * h)" and "q \<le> length buf"
  shows "gray_rows buf w h 0 (q, img) =
     (if q + w * h \<le> length buf \<and> w * h \<le> 536870912
      then Some (q + w * h, fill (\<lambda>c. c < 3) buf q 0 (w * h) img) else None)"
proof -
  have len: "4 * (h * w) \<le> length img" using assms(1) by (simp add: mult.commute)
  note r = gray_rows_eq [of 0 h w img buf q, OF _ len, simplified]
  show ?thesis
  proof (cases "0 < h \<and> 0 < w")
    case True
    then show ?thesis unfolding r by (simp add: mult.commute)
  next
    case False
    then have "w * h = 0" by auto
    then show ?thesis using False assms(2) unfolding r by (auto simp: fill_empty)
  qed
qed

lemma rgb_rows_all:
  assumes "length img = 4 * (w * h)" and "q \<le> length buf" and "bn < 4"
  shows "rgb_rows buf bn w h 0 (q, img) =
     (if q + w * h \<le> length buf \<and> w * h \<le> 536870912
      then Some (q + w * h, fill (\<lambda>c. c = bn) buf q 0 (w * h) img) else None)"
proof -
  have len: "4 * (h * w) \<le> length img" using assms(1) by (simp add: mult.commute)
  note r = rgb_rows_eq [of 0 h w img bn buf q, OF _ len assms(3), simplified]
  show ?thesis
  proof (cases "0 < h \<and> 0 < w")
    case True
    then show ?thesis unfolding r by (simp add: mult.commute)
  next
    case False
    then have "w * h = 0" by auto
    then show ?thesis using False assms(2) unfolding r by (auto simp: fill_empty)
  qed
qed

lemma read_grayscale_core:
  assumes "length (data ras) = 4 * (unat (width rd) * unat (height rd))"
  shows "map_option (\<lambda>(rd', ras'). (ptr rd', data ras')) (read_grayscale rd ras) =
         gray_core (wkb rd) (unat (width rd)) (unat (height rd))
           (ptr rd, replicate (length (data ras)) 0xff)"
proof (cases "ptr rd < length (wkb rd)")
  case False
  then show ?thesis
    by (simp add: read_grayscale_def gray_core_def read_uint8_def)
next
  case p: True
  show ?thesis
  proof (cases "band_skipped (wkb rd ! ptr rd)")
    case True
    then show ?thesis using p
      by (simp add: read_grayscale_def gray_core_def read_uint8_def band_skipped_def Let_def
          log_msg_def image_set_white)
  next
    case False
    show ?thesis
    proof (cases "ptr rd + 1 < length (wkb rd)")
      case nd: False
      then have "\<not> ptr rd + 2 + unat (width rd) * unat (height rd) \<le> length (wkb rd)" by arith
      then show ?thesis using p False nd
        by (simp add: read_grayscale_def gray_core_def read_uint8_def band_skipped_def Let_def
            log_msg_def image_set_white)
    next
      case nd: True
      have l: "length (replicate (length (data ras)) (0xff::uint8_t)) =
               4 * (unat (width rd) * unat (height rd))"
        using assms by simp
      have q: "Suc (Suc (ptr rd)) \<le> length (wkb rd)" using nd by arith
      note rows = gray_rows_all [OF l q]
      show ?thesis using p False nd
        by (simp add: read_grayscale_def gray_core_def read_uint8_def band_skipped_def Let_def
            log_msg_def image_set_white rows)
    qed
  qed
qed

lemma read_grayscale_frame:
  assumes "read_grayscale rd ras = Some (rd', ras')"
  shows "wkb rd' = wkb rd \<and> numBands rd' = numBands rd \<and> width rd' = width rd \<and>
         height rd' = height rd \<and> ext ras' = ext ras \<and> rwidth ras' = rwidth ras \<and>
         rheight ras' = rheight ras \<and> premultiplied_alpha ras'"
  using assms
  by (auto simp: read_grayscale_def read_uint8_def Let_def log_msg_def
      split: if_splits Option.bind_splits)

lemma rgb_band_core_eq:
  assumes "length (data ras) = 4 * (unat (width rd) * unat (height rd))" and "bn < 4"
  shows "map_option (\<lambda>(rd', ras', nv'). (ptr rd', data ras', nv')) (rgb_band bn (rd, ras, nv)) =
         rgb_band_core (wkb rd) (unat (width rd)) (unat (height rd)) bn (ptr rd, data ras, nv)"
proof (cases "ptr rd < length (wkb rd)")
  case False
  then show ?thesis
    by (simp add: rgb_band_def rgb_band_core_def read_uint8_def)
next
  case p: True
  show ?thesis
  proof (cases "band_skipped (wkb rd ! ptr rd)")
    case True
    then show ?thesis using p
      by (simp add: rgb_band_def rgb_band_core_def read_uint8_def band_skipped_def Let_def
          log_msg_def)
  next
    case False
    show ?thesis
    proof (cases "ptr rd + 1 < length (wkb rd)")
      case nd: False
      then have "\<not> ptr rd + 2 + unat (width rd) * unat (height rd) \<le> length (wkb rd)" by arith
      then show ?thesis using p False nd
        by (simp add: rgb_band_def rgb_band_core_def read_uint8_def band_skipped_def Let_def
            log_msg_def)
    next
      case nd: True
      have q: "Suc (Suc (ptr rd)) \<le> length (wkb rd)" using nd by arith
      note rows = rgb_rows_all [OF assms(1) q assms(2)]
      show ?thesis
      proof (cases "bn = 0")
        case True
        note rows0 = rows [unfolded True]
        show ?thesis using p False nd unfolding True
          by (simp add: rgb_band_def rgb_band_core_def read_uint8_def band_skipped_def Let_def
              log_msg_def rows0)
      next
        case bn: False
        show ?thesis
        proof (cases nv)
          case None
          then show ?thesis using p False nd bn
            by (simp add: rgb_band_def rgb_band_core_def read_uint8_def band_skipped_def Let_def
                log_msg_def)
        next
          case (Some v)
          then show ?thesis using p False nd bn
            by (simp add: rgb_band_def rgb_band_core_def read_uint8_def band_skipped_def Let_def
                log_msg_def rows)
        qed
      qed
    qed
  qed
qed

lemma rgb_band_frame:
  assumes "rgb_band bn (rd, ras, nv) = Some (rd', ras', nv')"
  shows "wkb rd' = wkb rd \<and> numBands rd' = numBands rd \<and> width rd' = width rd \<and>
         height rd' = height rd \<and> ext ras' = ext ras \<and> rwidth ras' = rwidth ras \<and>
         rheight ras' = rheight ras \<and> premultiplied_alpha ras' = premultiplied_alpha ras"
  using assms
  by (auto simp: rgb_band_def read_uint8_def Let_def log_msg_def
      split: if_splits Option.bind_splits option.splits)

lemma rgb_band_core_length:
  "rgb_band_core buf w h bn (p, img, nv) = Some (p', img', nv') \<Longrightarrow> length img' = length img"
  by (auto simp: rgb_band_core_def split: if_splits)

lemma gray_core_length:
  "gray_core buf w h (p, img) = Some (p', img') \<Longrightarrow> length img' = length img"
  by (auto simp: gray_core_def split: if_splits)

lemma rgb_bands_step:
  "bn < nb \<Longrightarrow> rgb_bands nb bn s = rgb_band bn s \<bind> rgb_bands nb (Suc bn)"
  by (subst rgb_bands.simps) simp

lemma rgb_bands_done: "rgb_bands nb nb = Some"
  by (rule ext) (subst rgb_bands.simps, simp)

lemma rgb_bands_3: "rgb_bands 3 0 s = rgb_band 0 s \<bind> (\<lambda>s. rgb_band 1 s \<bind> rgb_band 2)"
proof -
  have 3: "rgb_bands (Suc (Suc (Suc 0))) (Suc (Suc (Suc 0))) = Some"
    by (rule rgb_bands_done)
  have 2: "rgb_bands (Suc (Suc (Suc 0))) (Suc (Suc 0)) = rgb_band (Suc (Suc 0))"
    by (rule ext) (simp only: rgb_bands_step [OF lessI] 3 Option.bind_runit)
  have 1: "rgb_bands (Suc (Suc (Suc 0))) (Suc 0) =
           (\<lambda>s. rgb_band (Suc 0) s \<bind> rgb_band (Suc (Suc 0)))"
    by (rule ext) (simp only: rgb_bands_step [of "Suc 0" "Suc (Suc (Suc 0))"] 2 less_Suc_eq simp_thms)
  have 0: "rgb_bands (Suc (Suc (Suc 0))) 0 s =
           rgb_band 0 s \<bind> (\<lambda>s. rgb_band (Suc 0) s \<bind> rgb_band (Suc (Suc 0)))"
    by (simp only: rgb_bands_step [of 0 "Suc (Suc (Suc 0))"] 1 zero_less_Suc)
  show ?thesis using 0 by (simp only: numeral_3_eq_3 numeral_2_eq_2 One_nat_def)
qed

subsection \<open>The decoder in closed form\<close>

lemma header_reader_simps [simp]:
  "wkb (header_reader buf) = buf" "ptr (header_reader buf) = 61"
  "numBands (header_reader buf) = bands_of buf"
  "unat (width (header_reader buf)) = width_of buf"
  "unat (height (header_reader buf)) = height_of buf"
  by (simp_all add: header_reader_def log_msg_def new_reader_def width_of_def height_of_def)

lemma new_raster_simps [simp]:
  "ext (new_raster e w h) = e" "rwidth (new_raster e w h) = w" "rheight (new_raster e w h) = h"
  "length (data (new_raster e w h)) = 4 * (w * h)"
  by (simp_all add: new_raster_def)

lemma white_raster_simps [simp]:
  "ext (white_raster buf) = extent_of buf" "rwidth (white_raster buf) = width_of buf"
  "rheight (white_raster buf) = height_of buf"
  "data (white_raster buf) = replicate (4 * (width_of buf * height_of buf)) 0xff"
  "premultiplied_alpha (white_raster buf)"
  by (simp_all add: white_raster_def)

lemma raster_eq_white:
  assumes "ext r = extent_of buf" "rwidth r = width_of buf" "rheight r = height_of buf"
    "premultiplied_alpha r"
  shows "r = (white_raster buf)\<lparr>data := data r\<rparr>"
  using assms by (simp add: white_raster_def)

lemma decode_gray:
  assumes "header_ok buf" "bands_of buf = 1"
  shows "map_option (\<lambda>(r, rd). (r, ptr rd)) (decode buf) =
         map_option (\<lambda>(p, img). (Some ((white_raster buf)\<lparr>data := img\<rparr>), p))
           (gray_core buf (width_of buf) (height_of buf) (61, data (white_raster buf)))"
proof -
  let ?rd = "header_reader buf"
  let ?ras = "new_raster (extent_of buf) (width_of buf) (height_of buf)"
  have d: "decode buf = do { (rd', r) \<leftarrow> read_grayscale ?rd ?ras; Some (Some r, rd') }"
    using assms by (simp add: decode_header)
  have len: "length (data ?ras) = 4 * (unat (width ?rd) * unat (height ?rd))" by simp
  note core = read_grayscale_core [OF len, simplified]
  show ?thesis
  proof (cases "read_grayscale ?rd ?ras")
    case None
    with core show ?thesis by (simp add: d)
  next
    case (Some s)
    obtain rd' r' where s: "s = (rd', r')" by (cases s)
    from read_grayscale_frame [OF Some [unfolded s]]
    have "r' = (white_raster buf)\<lparr>data := data r'\<rparr>"
      by (intro raster_eq_white) simp_all
    then have r: "(white_raster buf)\<lparr>data := data r'\<rparr> = r'" by simp
    from core Some s
    have "gray_core buf (width_of buf) (height_of buf) (61, data (white_raster buf)) =
          Some (ptr rd', data r')" by simp
    then show ?thesis using Some s by (simp add: d r)
  qed
qed

lemma read_rgb_core:
  fixes rd :: reader and ras :: raster
  defines "w \<equiv> unat (width rd)" and "h \<equiv> unat (height rd)"
  assumes nb: "numBands rd = 3" and len: "length (data ras) = 4 * (w * h)"
  shows "case read_rgb rd ras of
           None \<Rightarrow> rgb_core (wkb rd) w h (ptr rd, replicate (length (data ras)) 0xff) = None
         | Some (rd', ras') \<Rightarrow>
             (\<exists>nv. rgb_core (wkb rd) w h (ptr rd, replicate (length (data ras)) 0xff) =
                     Some (ptr rd', data ras', nv)) \<and>
             ext ras' = ext ras \<and> rwidth ras' = rwidth ras \<and> rheight ras' = rheight ras \<and>
             premultiplied_alpha ras'"
proof -
  define inv :: "reader \<times> raster \<times> uint8_t option \<Rightarrow> bool" where
    "inv s = (case s of (rd', ras', nv') \<Rightarrow>
        wkb rd' = wkb rd \<and> width rd' = width rd \<and> height rd' = height rd \<and>
        length (data ras') = 4 * (w * h) \<and> ext ras' = ext ras \<and> rwidth ras' = rwidth ras \<and>
        rheight ras' = rheight ras \<and> premultiplied_alpha ras')" for s
  define obs :: "reader \<times> raster \<times> uint8_t option \<Rightarrow> nat \<times> uint8_t list \<times> uint8_t option" where
    "obs s = (case s of (rd', ras', nv') \<Rightarrow> (ptr rd', data ras', nv'))" for s
  define core where "core bn = rgb_band_core (wkb rd) w h bn" for bn
  have step: "map_option obs (rgb_band bn s) = core bn (obs s) \<and>
              (\<forall>s'. rgb_band bn s = Some s' \<longrightarrow> inv s')" if "inv s" "bn < 4" for s bn
  proof -
    obtain rd1 ras1 nv1 where s: "s = (rd1, ras1, nv1)" by (cases s)
    from that(1) have i: "wkb rd1 = wkb rd" "width rd1 = width rd" "height rd1 = height rd"
      "length (data ras1) = 4 * (w * h)" "ext ras1 = ext ras" "rwidth ras1 = rwidth ras"
      "rheight ras1 = rheight ras" "premultiplied_alpha ras1"
      by (simp_all add: inv_def s)
    have l: "length (data ras1) = 4 * (unat (width rd1) * unat (height rd1))"
      using i by (simp add: w_def h_def)
    have c: "map_option (\<lambda>(rd', ras', nv'). (ptr rd', data ras', nv')) (rgb_band bn (rd1, ras1, nv1)) =
             core bn (ptr rd1, data ras1, nv1)"
      using rgb_band_core_eq [OF l that(2), of nv1] i by (simp add: core_def w_def h_def)
    have 1: "map_option obs (rgb_band bn s) = core bn (obs s)"
      using c by (simp add: s obs_def [abs_def])
    have 2: "inv s'" if r: "rgb_band bn s = Some s'" for s'
    proof -
      obtain rd2 ras2 nv2 where s': "s' = (rd2, ras2, nv2)" by (cases s')
      note f = rgb_band_frame [OF r [unfolded s s']]
      from c r have "core bn (ptr rd1, data ras1, nv1) = Some (ptr rd2, data ras2, nv2)"
        by (simp add: s s')
      then have "length (data ras2) = length (data ras1)"
        unfolding core_def by (rule rgb_band_core_length)
      with f i show ?thesis by (simp add: inv_def s')
    qed
    from 1 2 show ?thesis by blast
  qed
  let ?white = "ras\<lparr>data := image_set (data ras) 0xffffffff, premultiplied_alpha := True\<rparr>"
  let ?s0 = "(rd, ?white, None)"
  have inv0: "inv ?s0" by (simp add: inv_def image_set_white len)
  have obs0: "obs ?s0 = (ptr rd, replicate (length (data ras)) 0xff, None)"
    by (simp add: obs_def image_set_white)
  have rc: "rgb_core (wkb rd) w h (ptr rd, replicate (length (data ras)) 0xff) =
            core 0 (obs ?s0) \<bind> core 1 \<bind> core 2"
    by (simp add: rgb_core_def core_def obs0)
  have rr: "read_rgb rd ras =
            (rgb_band 0 ?s0 \<bind> (\<lambda>s. rgb_band 1 s \<bind> rgb_band 2)) \<bind>
              (\<lambda>(rd', raster', nodataval). Some (rd', raster'))"
    by (simp add: read_rgb_def nb rgb_bands_3 Let_def)
  have lt: "(0::nat) < 4" "(1::nat) < 4" "(2::nat) < 4" by simp_all
  have chain: "map_option obs (rgb_band 0 ?s0 \<bind> (\<lambda>s. rgb_band 1 s \<bind> rgb_band 2)) =
               core 0 (obs ?s0) \<bind> core 1 \<bind> core 2 \<and>
               (\<forall>s'. rgb_band 0 ?s0 \<bind> (\<lambda>s. rgb_band 1 s \<bind> rgb_band 2) = Some s' \<longrightarrow> inv s')"
  proof (cases "rgb_band 0 ?s0")
    case None
    with step [OF inv0 lt(1)] show ?thesis by simp
  next
    case s1: (Some s1)
    note st0 = step [OF inv0 lt(1)]
    from st0 s1 have c0: "core 0 (obs ?s0) = Some (obs s1)" by simp
    from st0 s1 have i1: "inv s1" by blast
    note st1 = step [OF i1 lt(2)]
    show ?thesis
    proof (cases "rgb_band 1 s1")
      case None
      with st1 show ?thesis using s1 c0 by simp
    next
      case s2: (Some s2)
      from st1 s2 have c1: "core 1 (obs s1) = Some (obs s2)" by simp
      from st1 s2 have i2: "inv s2" by blast
      note st2 = step [OF i2 lt(3)]
      have "map_option obs (rgb_band 2 s2) = core 2 (obs s2)" using st2 by blast
      moreover have "\<forall>s'. rgb_band 2 s2 = Some s' \<longrightarrow> inv s'" using st2 by blast
      ultimately show ?thesis using s1 c0 s2 c1 by simp
    qed
  qed
  show ?thesis
  proof (cases "rgb_band 0 ?s0 \<bind> (\<lambda>s. rgb_band 1 s \<bind> rgb_band 2)")
    case None
    with chain show ?thesis by (simp add: rr rc)
  next
    case (Some s')
    obtain rd' ras' nv' where s': "s' = (rd', ras', nv')" by (cases s')
    from chain Some have cc: "core 0 (obs ?s0) \<bind> core 1 \<bind> core 2 = Some (obs s')"
      by simp
    from chain Some have "inv s'" by blast
    with cc show ?thesis using Some by (auto simp: rr rc s' obs_def inv_def)
  qed
qed

lemma decode_rgb:
  assumes "header_ok buf" "bands_of buf = 3"
  shows "map_option (\<lambda>(r, rd). (r, ptr rd)) (decode buf) =
         map_option (\<lambda>(p, img, nv). (Some ((white_raster buf)\<lparr>data := img\<rparr>), p))
           (rgb_core buf (width_of buf) (height_of buf) (61, data (white_raster buf)))"
proof -
  let ?rd = "header_reader buf"
  let ?ras = "new_raster (extent_of buf) (width_of buf) (height_of buf)"
  have d: "decode buf = do { (rd', r) \<leftarrow> read_rgb ?rd ?ras; Some (Some r, rd') }"
    using assms by (simp add: decode_header)
  have nb: "numBands ?rd = 3" using assms by simp
  have len: "length (data ?ras) = 4 * (unat (width ?rd) * unat (height ?rd))" by simp
  note core = read_rgb_core [OF nb len, simplified]
  show ?thesis
  proof (cases "read_rgb ?rd ?ras")
    case None
    with core show ?thesis by (simp add: d)
  next
    case (Some s)
    obtain rd' r' where s: "s = (rd', r')" by (cases s)
    from core Some s obtain nv where
      c: "rgb_core buf (width_of buf) (height_of buf) (61, data (white_raster buf)) =
          Some (ptr rd', data r', nv)"
      and f: "ext r' = extent_of buf" "rwidth r' = width_of buf" "rheight r' = height_of buf"
        "premultiplied_alpha r'"
      by auto
    from f have "r' = (white_raster buf)\<lparr>data := data r'\<rparr>" by (rule raster_eq_white)
    then have r: "(white_raster buf)\<lparr>data := data r'\<rparr> = r'" by simp
    show ?thesis using Some s c by (simp add: d r)
  qed
qed

subsection \<open>Inputs with the same header\<close>

lemma hdr_u16_cong:
  assumes "buf' ! 0 = buf ! 0" "buf' ! p = buf ! p" "buf' ! (p + 1) = buf ! (p + 1)"
    "(p + 2 \<le> length buf') = (p + 2 \<le> length buf)"
  shows "hdr_u16 buf' p = hdr_u16 buf p"
  using assms by (simp add: hdr_u16_def read_uint16_def)

lemma hdr_f64_cong:
  assumes "buf' ! 0 = buf ! 0" "\<forall>k<8. buf' ! (p + k) = buf ! (p + k)"
    "(p + 8 \<le> length buf') = (p + 8 \<le> length buf)"
  shows "hdr_f64 buf' p = hdr_f64 buf p"
proof -
  have "buf' ! (p + k) = buf ! (p + k)" if "k < 8" for k using assms(2) that by blast
  from this [of 0] this [of 1] this [of 2] this [of 3] this [of 4] this [of 5] this [of 6] this [of 7]
  show ?thesis using assms(1,3) by (simp add: hdr_f64_def read_float64_def Let_def)
qed

lemma hdr_i32_cong:
  assumes "buf' ! 0 = buf ! 0" "\<forall>k<4. buf' ! (p + k) = buf ! (p + k)"
    "(p + 4 \<le> length buf') = (p + 4 \<le> length buf)"
  shows "hdr_i32 buf' p = hdr_i32 buf p"
proof -
  have "buf' ! (p + k) = buf ! (p + k)" if "k < 4" for k using assms(2) that by blast
  from this [of 0] this [of 1] this [of 2] this [of 3]
  show ?thesis using assms(1,3)
    by (simp add: hdr_i32_def read_int32_def read_uint32_def Let_def)
qed

lemma header_cong:
  assumes len: "61 \<le> length buf" "61 \<le> length buf'"
    and eq: "\<forall>i<61. i \<notin> {53, 54, 55, 56} \<longrightarrow> buf' ! i = buf ! i"
  shows "version_of buf' = version_of buf" "bands_of buf' = bands_of buf"
    "scaleX_of buf' = scaleX_of buf" "scaleY_of buf' = scaleY_of buf"
    "ipX_of buf' = ipX_of buf" "ipY_of buf' = ipY_of buf"
    "skewX_of buf' = skewX_of buf" "skewY_of buf' = skewY_of buf"
    "hdr_u16 buf' 57 = hdr_u16 buf 57" "hdr_u16 buf' 59 = hdr_u16 buf 59"
proof -
  have e: "buf' ! i = buf ! i" if "i < 61" "i \<notin> {53, 54, 55, 56}" for i
    using eq that by blast
  have u: "hdr_u16 buf' p = hdr_u16 buf p" if "p + 2 \<le> 53 \<or> 57 \<le> p \<and> p + 2 \<le> 61" for p
    using that len by (intro hdr_u16_cong e) auto
  have f: "hdr_f64 buf' p = hdr_f64 buf p" if "p + 8 \<le> 53" for p
    using that len by (intro hdr_f64_cong e allI impI) auto
  show "version_of buf' = version_of buf" "bands_of buf' = bands_of buf"
    "scaleX_of buf' = scaleX_of buf" "scaleY_of buf' = scaleY_of buf"
    "ipX_of buf' = ipX_of buf" "ipY_of buf' = ipY_of buf"
    "skewX_of buf' = skewX_of buf" "skewY_of buf' = skewY_of buf"
    "hdr_u16 buf' 57 = hdr_u16 buf 57" "hdr_u16 buf' 59 = hdr_u16 buf 59"
    by (simp_all add: hdr_fields u f)
qed

lemma header_cong':
  assumes len: "61 \<le> length buf" "61 \<le> length buf'"
    and eq: "\<forall>i<61. i \<notin> {53, 54, 55, 56} \<longrightarrow> buf' ! i = buf ! i"
  shows "header_ok buf' = header_ok buf" "extent_of buf' = extent_of buf"
    "width_of buf' = width_of buf" "height_of buf' = height_of buf"
    "white_raster buf' = white_raster buf"
proof -
  note h = header_cong [OF assms]
  show w: "width_of buf' = width_of buf" "height_of buf' = height_of buf"
    by (simp_all add: width_of_def height_of_def h)
  show "header_ok buf' = header_ok buf" using len by (simp add: header_ok_def h)
  show e: "extent_of buf' = extent_of buf" by (simp add: extent_of_def h w)
  show "white_raster buf' = white_raster buf" by (simp add: white_raster_def e w)
qed


lemma gray_core_valid:
  assumes "\<not> band_skipped (buf ! p)" "p + 2 + w * h \<le> length buf" "w * h \<le> 536870912"
  shows "gray_core buf w h (p, img) =
         Some (p + 2 + w * h, fill (\<lambda>c. c < 3) buf (p + 2) 0 (w * h) img)"
  using assms by (simp add: gray_core_def)

lemma not_skipped:
  "band_skipped t = (BANDTYPE_IS_OFFDB t \<noteq> 0 \<or>
     \<not> (BANDTYPE_PIXTYPE t = PT_8BSI \<or> BANDTYPE_PIXTYPE t = PT_8BUI))"
  by (auto simp: band_skipped_def PT_8BSI_def PT_8BUI_def)

lemma decode_gray_valid:
  assumes "header_ok buf" and "bands_of buf = 1"
    and "BANDTYPE_IS_OFFDB (buf ! 61) = 0"
    and "BANDTYPE_PIXTYPE (buf ! 61) = PT_8BSI \<or> BANDTYPE_PIXTYPE (buf ! 61) = PT_8BUI"
    and "63 + width_of buf * height_of buf \<le> length buf"
    and "width_of buf * height_of buf \<le> 536870912"
  shows "\<exists>rd. decode buf =
           Some (Some ((white_raster buf)\<lparr>data := fill (\<lambda>c. c < 3) buf 63 0
                    (width_of buf * height_of buf) (data (white_raster buf))\<rparr>), rd) \<and>
           ptr rd = 63 + width_of buf * height_of buf"
proof -
  have ns: "\<not> band_skipped (buf ! 61)" using assms(3,4) by (simp add: not_skipped)
  have "gray_core buf (width_of buf) (height_of buf) (61, data (white_raster buf)) =
        Some (61 + 2 + width_of buf * height_of buf,
              fill (\<lambda>c. c < 3) buf (61 + 2) 0 (width_of buf * height_of buf) (data (white_raster buf)))"
    using ns assms(5,6) by (intro gray_core_valid) simp_all
  with decode_gray [OF assms(1,2)] show ?thesis by auto
qed


lemma big_band_fields:
  "length big_band = 2 + 65535 * 8193" "(big_band @ rest) ! 0 = 4"
  "BANDTYPE_IS_OFFDB 4 = 0" "BANDTYPE_PIXTYPE 4 = PT_8BUI" "\<not> band_skipped 4"
  by (simp_all add: big_band_def not_skipped BANDTYPE_IS_OFFDB_def BANDTYPE_PIXTYPE_def PT_8BUI_def
        BANDTYPE_FLAG_OFFDB_def BANDTYPE_PIXTYPE_MASK_def)


lemma fill_cong:
  assumes "\<forall>j. k0 + j < k1 \<longrightarrow> buf' ! (p + j) = buf ! (p + j)"
  shows "fill C buf' p k0 k1 img = fill C buf p k0 k1 img"
proof (rule nth_equalityI)
  show "length (fill C buf' p k0 k1 img) = length (fill C buf p k0 k1 img)" by simp
next
  fix i assume "i < length (fill C buf' p k0 k1 img)"
  then have i: "i < length img" by simp
  have "buf' ! (p + (i div 4 - k0)) = buf ! (p + (i div 4 - k0))"
    if "k0 \<le> i div 4" "i div 4 < k1"
    using that assms by (intro assms [rule_format]) arith
  then show "fill C buf' p k0 k1 img ! i = fill C buf p k0 k1 img ! i"
    using i by (simp add: nth_fill)
qed







lemma offdb_bit: "(BANDTYPE_IS_OFFDB t \<noteq> 0) = bit t 7"
proof -
  have "(t AND 2 ^ 7 = 0) = (\<not> bit t 7)" by (rule and_exp_eq_0_iff_not_bit)
  then show ?thesis by (simp add: BANDTYPE_IS_OFFDB_def BANDTYPE_FLAG_OFFDB_def uint_0_iff)
qed

lemma c2_fields:
  "header_ok (c2_header @ rest)" "bands_of (c2_header @ rest) = 1"
  "width_of (c2_header @ rest) = 10" "height_of (c2_header @ rest) = 5"
  "scaleX_of (c2_header @ rest) = Finite False 2" "scaleY_of (c2_header @ rest) = Finite True 2"
  "ipX_of (c2_header @ rest) = Finite False 0" "ipY_of (c2_header @ rest) = Finite False 100"
  by (simp_all add: c2_header_def header_ok_def hdr_fields hdr_u16_def hdr_f64_def
      read_uint16_def read_float64_def double_of_bits_def Let_def nth_append pow2_def)

lemma c2_arith:
  "dadd (Finite False 0) (dmul (double_of_int 10) (Finite False 2)) = Finite False 20"
  "dadd (Finite False 100) (dmul (double_of_int 5) (Finite True 2)) = Finite False 90"
  by (simp_all add: pow2_def double_of_int_def round_double_def ilog2_def
      round_half_even_def bit_length.simps signed_def Let_def)

lemma c2_extent:
  "extent_of (c2_header @ rest) = box2d_init (Finite False 0) (Finite False 100)
                                   (Finite False 20) (Finite False 90)"
  by (simp add: extent_of_def c2_fields c2_arith)

lemma rgb_core_length:
  assumes "rgb_core buf w h (p, img) = Some (p', img', nv')"
  shows "length img' = length img"
proof -
  from assms obtain s1 s2 where
    a: "rgb_band_core buf w h 0 (p, img, None) = Some s1"
      "rgb_band_core buf w h 1 s1 = Some s2" "rgb_band_core buf w h 2 s2 = Some (p', img', nv')"
    by (auto simp: rgb_core_def bind_eq_Some_conv)
  obtain p1 i1 n1 where s1: "s1 = (p1, i1, n1)" by (cases s1)
  obtain p2 i2 n2 where s2: "s2 = (p2, i2, n2)" by (cases s2)
  from a [unfolded s1 s2] show ?thesis
    using rgb_band_core_length [of buf w h 0 p img None p1 i1 n1]
      rgb_band_core_length [of buf w h 1 p1 i1 n1 p2 i2 n2]
      rgb_band_core_length [of buf w h 2 p2 i2 n2 p' img' nv'] by simp
qed

lemma decode_raster_header:
  assumes d: "decode buf = Some (Some r, rd)"
  shows "header_ok buf"
proof -
  have l3: "3 \<le> length buf"
  proof (rule ccontr)
    assume "\<not> 3 \<le> length buf"
    then have "decode buf = None" by (intro decode_short) simp
    with d show False by simp
  qed
  have v0: "version_of buf = 0"
  proof (rule ccontr)
    assume "version_of buf \<noteq> 0"
    from decode_version [OF l3 this] d show False by simp
  qed
  have l61: "61 \<le> length buf"
  proof (rule ccontr)
    assume "\<not> 61 \<le> length buf"
    then have "decode buf = None" using l3 v0 by (intro decode_truncated_header) simp_all
    with d show False by simp
  qed
  have "\<not> (dnonzero (skewX_of buf) \<or> dnonzero (skewY_of buf))"
  proof
    assume "dnonzero (skewX_of buf) \<or> dnonzero (skewY_of buf)"
    from decode_rotation [OF l61 v0 this] d show False by auto
  qed
  with l61 v0 show ?thesis by (simp add: header_ok_def)
qed

lemma decode_raster_frame:
  assumes d: "decode buf = Some (Some r, rd)"
  shows "ext r = extent_of buf \<and> rwidth r = width_of buf \<and> rheight r = height_of buf \<and>
         length (data r) = 4 * (width_of buf * height_of buf) \<and>
         (bands_of buf = 1 \<or> bands_of buf = 3)"
proof -
  note ok = decode_raster_header [OF d]
  let ?rd = "header_reader buf"
  let ?ras = "new_raster (extent_of buf) (width_of buf) (height_of buf)"
  have b: "bands_of buf = 1 \<or> bands_of buf = 3"
    using d decode_header [OF ok] by (auto split: if_splits)
  then show ?thesis
  proof
    assume b1: "bands_of buf = 1"
    from decode_gray [OF ok b1] d
    have "map_option (\<lambda>(p, img). (Some ((white_raster buf)\<lparr>data := img\<rparr>), p))
           (gray_core buf (width_of buf) (height_of buf) (61, data (white_raster buf))) =
          Some (Some r, ptr rd)" by simp
    then obtain p img where g: "gray_core buf (width_of buf) (height_of buf) (61, data (white_raster buf)) = Some (p, img)"
      and r: "r = (white_raster buf)\<lparr>data := img\<rparr>"
      unfolding map_option_eq_Some by auto
    from gray_core_length [OF g] have "length img = length (data (white_raster buf))" by simp
    with r b1 show ?thesis by simp
  next
    assume b3: "bands_of buf = 3"
    from decode_rgb [OF ok b3] d
    have "map_option (\<lambda>(p, img, nv). (Some ((white_raster buf)\<lparr>data := img\<rparr>), p))
           (rgb_core buf (width_of buf) (height_of buf) (61, data (white_raster buf))) =
          Some (Some r, ptr rd)" by simp
    then obtain p img nv where g: "rgb_core buf (width_of buf) (height_of buf) (61, data (white_raster buf)) = Some (p, img, nv)"
      and r: "r = (white_raster buf)\<lparr>data := img\<rparr>"
      unfolding map_option_eq_Some by auto
    from rgb_core_length [OF g] have "length img = length (data (white_raster buf))" by simp
    with r b3 show ?thesis by simp
  qed
qed

lemma scenario_fields:
  "header_ok scenario" "bands_of scenario = 1" "width_of scenario = 2" "height_of scenario = 1"
  "scaleX_of scenario = Finite False 1" "scaleY_of scenario = Finite False 1"
  "ipX_of scenario = Finite False 0" "ipY_of scenario = Finite False 0"
  by (simp_all add: scenario_def header_ok_def hdr_fields hdr_u16_def hdr_f64_def
      read_uint16_def read_float64_def double_of_bits_def Let_def pow2_def)

lemma scenario_arith:
  "dadd (Finite False 0) (dmul (double_of_int 2) (Finite False 1)) = Finite False 2"
  "dadd (Finite False 0) (dmul (double_of_int 1) (Finite False 1)) = Finite False 1"
  by (simp_all add: pow2_def double_of_int_def round_double_def ilog2_def
      round_half_even_def bit_length.simps signed_def Let_def)

lemma c2_decodes: "\<exists>r rd. decode c2_input = Some (Some r, rd)"
proof -
  note f = c2_fields [of "4 # 0 # replicate 50 7", folded c2_input_def]
  have t: "c2_input ! 61 = 4" "length c2_input = 113"
    by (simp_all add: c2_input_def c2_header_def nth_append)
  have tg: "BANDTYPE_IS_OFFDB (c2_input ! 61) = 0" "BANDTYPE_PIXTYPE (c2_input ! 61) = PT_8BUI"
    unfolding t by (rule big_band_fields)+
  from decode_gray_valid [OF f(1,2) tg(1)] tg(2) f(3,4) t(2) show ?thesis by auto
qed

lemma gray_core_ptr:
  "gray_core buf w h (p, img) = Some (p', img') \<Longrightarrow> p' \<le> length buf"
  by (auto simp: gray_core_def split: if_splits)

lemma rgb_band_core_ptr:
  "rgb_band_core buf w h bn (p, img, nv) = Some (p', img', nv') \<Longrightarrow> p' \<le> length buf"
  by (auto simp: rgb_band_core_def split: if_splits)

lemma rgb_core_ptr:
  assumes "rgb_core buf w h (p, img) = Some (p', img', nv')"
  shows "p' \<le> length buf"
proof -
  from assms obtain s2 where
    a: "rgb_band_core buf w h 2 s2 = Some (p', img', nv')"
    by (auto simp: rgb_core_def bind_eq_Some_conv)
  obtain p2 i2 n2 where s2: "s2 = (p2, i2, n2)" by (cases s2)
  from a [unfolded s2] show ?thesis by (rule rgb_band_core_ptr)
qed

lemma decode_returns:
  assumes d: "decode buf = Some (x, rd)"
  shows "ptr rd \<le> length buf \<and>
         (x = None \<longrightarrow> (\<exists>v. last (diags rd) = Warn_version v) \<or> last (diags rd) = Warn_rotation \<or>
                        (\<exists>n. last (diags rd) = Warn_bands n))"
proof -
  have l3: "3 \<le> length buf"
  proof (rule ccontr)
    assume "\<not> 3 \<le> length buf"
    then have "decode buf = None" by (intro decode_short) simp
    with d show False by simp
  qed
  show ?thesis
  proof (cases "version_of buf = 0")
    case False
    from decode_version [OF l3 False] d l3 show ?thesis
      by (auto simp: log_msg_def new_reader_def)
  next
    case v0: True
    have l61: "61 \<le> length buf"
    proof (rule ccontr)
      assume "\<not> 61 \<le> length buf"
      then have "decode buf = None" using l3 v0 by (intro decode_truncated_header) simp_all
      with d show False by simp
    qed
    show ?thesis
    proof (cases "dnonzero (skewX_of buf) \<or> dnonzero (skewY_of buf)")
      case True
      from decode_rotation [OF l61 v0 True] d l61 show ?thesis by auto
    next
      case False
      with l61 v0 have ok: "header_ok buf" by (simp add: header_ok_def)
      consider (g) "bands_of buf = 1" | (c) "bands_of buf = 3"
        | (o) "bands_of buf \<noteq> 1" "bands_of buf \<noteq> 3" by blast
      then show ?thesis
      proof cases
        case g
        from decode_gray [OF ok g] d
        have "map_option (\<lambda>(p, img). (Some ((white_raster buf)\<lparr>data := img\<rparr>), p))
               (gray_core buf (width_of buf) (height_of buf) (61, data (white_raster buf))) =
              Some (x, ptr rd)" by simp
        then obtain p img where
          c: "gray_core buf (width_of buf) (height_of buf) (61, data (white_raster buf)) = Some (p, img)"
          and r: "x = Some ((white_raster buf)\<lparr>data := img\<rparr>)" "ptr rd = p"
          unfolding map_option_eq_Some by auto
        from gray_core_ptr [OF c] r show ?thesis by simp
      next
        case c
        from decode_rgb [OF ok c] d
        have "map_option (\<lambda>(p, img, nv). (Some ((white_raster buf)\<lparr>data := img\<rparr>), p))
               (rgb_core buf (width_of buf) (height_of buf) (61, data (white_raster buf))) =
              Some (x, ptr rd)" by simp
        then obtain p img nv where
          c: "rgb_core buf (width_of buf) (height_of buf) (61, data (white_raster buf)) = Some (p, img, nv)"
          and r: "x = Some ((white_raster buf)\<lparr>data := img\<rparr>)" "ptr rd = p"
          unfolding map_option_eq_Some by auto
        from rgb_core_ptr [OF c] r show ?thesis by simp
      next
        case o
        from decode_header [OF ok] o d l61 show ?thesis by (auto simp: log_msg_def)
      qed
    qed
  qed
qed

lemma band_skipped_mask:
  assumes "t' AND 0x8F = t AND 0x8F"
  shows "band_skipped t' = band_skipped t"
proof -
  have a: "x AND 0x80 = (x AND 0x8F) AND 0x80" "x AND 0x0F = (x AND 0x8F) AND 0x0F"
    for x :: uint8_t by (simp_all add: and.assoc)
  have "t' AND 0x80 = t AND 0x80" "t' AND 0x0F = t AND 0x0F"
    using a [of t'] a [of t] assms by simp_all
  then show ?thesis
    by (simp add: band_skipped_def BANDTYPE_IS_OFFDB_def BANDTYPE_PIXTYPE_def
        BANDTYPE_FLAG_OFFDB_def BANDTYPE_PIXTYPE_MASK_def)
qed

lemma band_fill_cong:
  assumes "length buf' = length buf" "band_agree buf' buf (w * h) p" "\<not> band_skipped (buf ! p)"
    "p + 2 + w * h \<le> length buf"
  shows "fill C buf' (p + 2) 0 (w * h) img = fill C buf (p + 2) 0 (w * h) img"
proof (rule fill_cong, intro allI impI)
  fix j assume "0 + j < w * h"
  then have "j < w * h" "p + 2 + j < length buf" using assms(4) by simp_all
  with assms(2,3) show "buf' ! (p + 2 + j) = buf ! (p + 2 + j)" by (simp add: band_agree_def)
qed

lemma gray_core_cong:
  assumes "length buf' = length buf" "band_agree buf' buf (w * h) p"
  shows "gray_core buf' w h (p, img) = gray_core buf w h (p, img)"
proof (cases "p < length buf")
  case False
  then show ?thesis using assms(1) by (simp add: gray_core_def)
next
  case True
  with assms(2) have s: "band_skipped (buf' ! p) = band_skipped (buf ! p)"
    by (simp add: band_agree_def)
  show ?thesis
  proof (cases "\<not> band_skipped (buf ! p) \<and> p + 2 + w * h \<le> length buf")
    case True
    then show ?thesis
      using band_fill_cong [OF assms, of "\<lambda>c. c < 3" img] assms(1) s \<open>p < length buf\<close>
      by (simp add: gray_core_def)
  next
    case False
    then show ?thesis using assms(1) s \<open>p < length buf\<close> by (auto simp: gray_core_def)
  qed
qed

lemma rgb_band_core_cong:
  assumes "length buf' = length buf" "band_agree buf' buf (w * h) p" "(nv' = None) = (nv = None)"
  shows "(rgb_band_core buf' w h bn (p, img, nv') = None \<and>
          rgb_band_core buf w h bn (p, img, nv) = None) \<or>
         (\<exists>img2 n2' n2.
            rgb_band_core buf' w h bn (p, img, nv') =
              Some (if band_skipped (buf ! p) then p + 1 else p + 2 + w * h, img2, n2') \<and>
            rgb_band_core buf w h bn (p, img, nv) =
              Some (if band_skipped (buf ! p) then p + 1 else p + 2 + w * h, img2, n2) \<and>
            (n2' = None) = (n2 = None))"
proof (cases "p < length buf")
  case False
  then show ?thesis using assms(1) by (simp add: rgb_band_core_def)
next
  case True
  with assms(2) have s: "band_skipped (buf' ! p) = band_skipped (buf ! p)"
    by (simp add: band_agree_def)
  show ?thesis
  proof (cases "\<not> band_skipped (buf ! p) \<and> p + 2 + w * h \<le> length buf")
    case True
    then show ?thesis
      using band_fill_cong [OF assms(1,2), of "\<lambda>c. c = bn" img] assms(1,3) s \<open>p < length buf\<close>
      by (cases nv; cases nv') (auto simp: rgb_band_core_def)
  next
    case False
    then show ?thesis using assms(1,3) s \<open>p < length buf\<close>
      by (cases nv; cases nv') (auto simp: rgb_band_core_def)
  qed
qed

lemma rgb_core_cong:
  fixes buf :: "uint8_t list" and w h :: nat
  defines "E \<equiv> \<lambda>q. if band_skipped (buf ! q) then q + 1 else q + 2 + w * h"
  assumes len: "length buf' = length buf"
    and a0: "band_agree buf' buf (w * h) p"
    and a1: "band_agree buf' buf (w * h) (E p)"
    and a2: "band_agree buf' buf (w * h) (E (E p))"
  shows "map_option (\<lambda>(p, img, nv). (p, img)) (rgb_core buf' w h (p, img)) =
         map_option (\<lambda>(p, img, nv). (p, img)) (rgb_core buf w h (p, img))"
proof -
  from rgb_band_core_cong [OF len a0, of None None 0 img]
  consider (n0) "rgb_band_core buf' w h 0 (p, img, None) = None"
      "rgb_band_core buf w h 0 (p, img, None) = None"
    | (s0) i1 m1' m1 where "rgb_band_core buf' w h 0 (p, img, None) = Some (E p, i1, m1')"
      "rgb_band_core buf w h 0 (p, img, None) = Some (E p, i1, m1)" "(m1' = None) = (m1 = None)"
    unfolding E_def by auto
  then show ?thesis
  proof cases
    case n0
    then show ?thesis by (simp add: rgb_core_def)
  next
    case s0
    from rgb_band_core_cong [OF len a1 s0(3), of 1 i1]
    consider (n1) "rgb_band_core buf' w h 1 (E p, i1, m1') = None"
        "rgb_band_core buf w h 1 (E p, i1, m1) = None"
      | (s1) i2 m2' m2 where "rgb_band_core buf' w h 1 (E p, i1, m1') = Some (E (E p), i2, m2')"
        "rgb_band_core buf w h 1 (E p, i1, m1) = Some (E (E p), i2, m2)"
        "(m2' = None) = (m2 = None)"
      unfolding E_def by auto
    then show ?thesis
    proof cases
      case n1
      with s0 show ?thesis by (simp add: rgb_core_def)
    next
      case s1
      from rgb_band_core_cong [OF len a2 s1(3), of 2 i2]
      consider (n2) "rgb_band_core buf' w h 2 (E (E p), i2, m2') = None"
          "rgb_band_core buf w h 2 (E (E p), i2, m2) = None"
        | (s2) q i3 m3' m3 where "rgb_band_core buf' w h 2 (E (E p), i2, m2') = Some (q, i3, m3')"
          "rgb_band_core buf w h 2 (E (E p), i2, m2) = Some (q, i3, m3)"
        by auto
      then show ?thesis
      proof cases
        case n2
        with s0 s1 show ?thesis by (simp add: rgb_core_def)
      next
        case s2
        with s0 s1 show ?thesis by (simp add: rgb_core_def)
      qed
    qed
  qed
qed

lemma map_option_proj:
  assumes "map_option (\<lambda>(p, img, nv). (p, img)) x' = map_option (\<lambda>(p, img, nv). (p, img)) x"
  shows "map_option (\<lambda>(p, img, nv). F p img) x' = map_option (\<lambda>(p, img, nv). F p img) x"
  using assms by (cases x; cases x') auto

lemma band_pos_simps:
  "band_pos buf 1 = band_end buf 61" "band_pos buf 2 = band_end buf (band_end buf 61)"
  by (simp_all add: numeral_2_eq_2)

lemma decode_cong_core:
  assumes len: "length buf' = length buf"
    and hdr: "\<forall>i<61. i < length buf \<longrightarrow> i \<notin> {53, 54, 55, 56} \<longrightarrow> buf' ! i = buf ! i"
    and g: "bands_of buf = 1 \<longrightarrow>
              band_agree buf' buf (width_of buf * height_of buf) (band_pos buf 0)"
    and c: "bands_of buf = 3 \<longrightarrow>
              band_agree buf' buf (width_of buf * height_of buf) (band_pos buf 0) \<and>
              band_agree buf' buf (width_of buf * height_of buf) (band_pos buf 1) \<and>
              band_agree buf' buf (width_of buf * height_of buf) (band_pos buf 2)"
  shows "outcome (decode buf') = outcome (decode buf)"
proof (cases "3 \<le> length buf")
  case False
  then have "decode buf = None" "decode buf' = None" using len by (simp_all add: decode_short)
  then show ?thesis by simp
next
  case l3: True
  then have l3': "3 \<le> length buf'" using len by simp
  have e3: "buf' ! i = buf ! i" if "i < 3" for i
    using hdr [rule_format, of i] that l3 by simp
  have v: "version_of buf' = version_of buf"
    unfolding version_of_def using l3 len by (intro hdr_u16_cong e3) simp_all
  show ?thesis
  proof (cases "version_of buf = 0")
    case False
    from decode_version [OF l3 False] decode_version [OF l3', unfolded v, OF False]
    show ?thesis by (simp add: outcome_def log_msg_def new_reader_def)
  next
    case v0: True
    show ?thesis
    proof (cases "61 \<le> length buf")
      case False
      then have "decode buf = None" "decode buf' = None"
        using l3 l3' v v0 len by (simp_all add: decode_truncated_header)
      then show ?thesis by simp
    next
      case l61: True
      then have l61': "61 \<le> length buf'" using len by simp
      have e: "\<forall>i<61. i \<notin> {53, 54, 55, 56} \<longrightarrow> buf' ! i = buf ! i"
        using hdr l61 by simp
      note h = header_cong [OF l61 l61' e] header_cong' [OF l61 l61' e]
      show ?thesis
      proof (cases "dnonzero (skewX_of buf) \<or> dnonzero (skewY_of buf)")
        case True
        then have r': "dnonzero (skewX_of buf') \<or> dnonzero (skewY_of buf')" by (simp add: h)
        from decode_rotation [OF l61 v0 True] decode_rotation [OF l61' v0 [folded v] r']
        show ?thesis by (auto simp: outcome_def)
      next
        case False
        with l61 v0 have ok: "header_ok buf" by (simp add: header_ok_def)
        then have ok': "header_ok buf'" by (simp add: h)
        consider (g) "bands_of buf = 1" | (c) "bands_of buf = 3"
          | (o) "bands_of buf \<noteq> 1" "bands_of buf \<noteq> 3" by blast
        then show ?thesis
        proof cases
          case g
          then have g': "bands_of buf' = 1" by (simp add: h)
          from g \<open>bands_of buf = 1 \<longrightarrow> _\<close>
          have a: "band_agree buf' buf (width_of buf * height_of buf) 61" by simp
          show ?thesis
            unfolding outcome_def decode_gray [OF ok g] decode_gray [OF ok' g'] h
            by (simp only: gray_core_cong [OF len a])
        next
          case c
          then have c': "bands_of buf' = 3" by (simp add: h)
          from c \<open>bands_of buf = 3 \<longrightarrow> _\<close>
          have a: "band_agree buf' buf (width_of buf * height_of buf) 61"
            "band_agree buf' buf (width_of buf * height_of buf) (band_end buf 61)"
            "band_agree buf' buf (width_of buf * height_of buf) (band_end buf (band_end buf 61))"
            by (simp_all add: band_pos_simps)
          note k = rgb_core_cong [OF len a(1) a(2) [unfolded band_end_def] a(3) [unfolded band_end_def]]
          show ?thesis
            unfolding outcome_def decode_rgb [OF ok c] decode_rgb [OF ok' c'] h
            by (rule map_option_proj [OF k])
        next
          case o
          then have o': "bands_of buf' \<noteq> 1" "bands_of buf' \<noteq> 3" by (simp_all add: h)
          from decode_header [OF ok] decode_header [OF ok'] o o'
          show ?thesis by (simp add: outcome_def log_msg_def)
        qed
      qed
    qed
  qed
qed

lemma decode_cong_bytes:
  assumes len: "length buf' = length buf"
    and H: "\<forall>i<length buf. buf' ! i = buf ! i \<or> i \<in> {53, 54, 55, 56} \<or>
              (is_tag buf i \<and> band_skipped (buf' ! i) = band_skipped (buf ! i)) \<or>
              is_nodata buf i"
  shows "outcome (decode buf') = outcome (decode buf)"
proof (rule decode_cong_core [OF len])
  define n where "n = width_of buf * height_of buf"
  define P0 where "P0 = (61::nat)"
  define s0 where "s0 = band_skipped (buf ! P0)"
  define P1 where "P1 = (if s0 then P0 + 1 else P0 + 2 + n)"
  define s1 where "s1 = band_skipped (buf ! P1)"
  define P2 where "P2 = (if s1 then P1 + 1 else P1 + 2 + n)"
  define s2 where "s2 = band_skipped (buf ! P2)"
  have bp: "band_pos buf 0 = P0" "band_pos buf 1 = P1" "band_pos buf 2 = P2"
    by (simp_all add: band_pos_simps band_end_def P0_def P1_def P2_def s0_def s1_def n_def)
  have T: "i = P0 \<or> (bands_of buf = 3 \<and> (i = P1 \<or> i = P2))" if "is_tag buf i" for i
    using that unfolding is_tag_def bp by auto
  have N: "(i = P0 + 1 \<and> \<not> s0) \<or>
           (bands_of buf = 3 \<and> ((i = P1 + 1 \<and> \<not> s1) \<or> (i = P2 + 1 \<and> \<not> s2)))"
    if "is_nodata buf i" for i
    using that unfolding is_nodata_def nodata_at_def bp s0_def s1_def s2_def by auto
  have ord: "P0 = 61" "P0 < P1" "P1 < P2" "\<not> s0 \<longrightarrow> P1 = P0 + 2 + n" "\<not> s1 \<longrightarrow> P2 = P1 + 2 + n"
    by (simp_all add: P0_def P1_def P2_def)
  have Hi: "buf' ! i = buf ! i \<or> band_skipped (buf' ! i) = band_skipped (buf ! i)"
    if "i < length buf" "61 \<le> i" "\<not> is_nodata buf i" for i
  proof -
    from H that(1) have "buf' ! i = buf ! i \<or> i \<in> {53, 54, 55, 56} \<or>
              (is_tag buf i \<and> band_skipped (buf' ! i) = band_skipped (buf ! i)) \<or>
              is_nodata buf i" by blast
    with that(2,3) show ?thesis by auto
  qed
  have Hp: "buf' ! i = buf ! i"
    if "i < length buf" "i \<notin> {53, 54, 55, 56}" "\<not> is_nodata buf i" "\<not> is_tag buf i" for i
  proof -
    from H that(1) have "buf' ! i = buf ! i \<or> i \<in> {53, 54, 55, 56} \<or>
              (is_tag buf i \<and> band_skipped (buf' ! i) = band_skipped (buf ! i)) \<or>
              is_nodata buf i" by blast
    with that(2,3,4) show ?thesis by blast
  qed
  show "\<forall>i<61. i < length buf \<longrightarrow> i \<notin> {53, 54, 55, 56} \<longrightarrow> buf' ! i = buf ! i"
  proof (intro allI impI)
    fix i :: nat assume i: "i < 61" "i < length buf" "i \<notin> {53, 54, 55, 56}"
    have "\<not> is_tag buf i" using T [of i] i(1) ord by auto
    moreover have "\<not> is_nodata buf i" using N [of i] i(1) ord by auto
    ultimately show "buf' ! i = buf ! i" using Hp i(2,3) by blast
  qed
  have agree: "band_agree buf' buf n p"
    if p: "61 \<le> p" and np: "\<not> is_nodata buf p"
      and pay: "\<And>j. j < n \<Longrightarrow> \<not> band_skipped (buf ! p) \<Longrightarrow>
                  \<not> is_tag buf (p + 2 + j) \<and> \<not> is_nodata buf (p + 2 + j)" for p
    unfolding band_agree_def
  proof (intro conjI impI allI)
    assume "p < length buf"
    from Hi [OF this p np] show "band_skipped (buf' ! p) = band_skipped (buf ! p)" by auto
  next
    fix j assume a: "\<not> band_skipped (buf ! p)" "j < n" "p + 2 + j < length buf"
    from pay [OF a(2,1)] p show "buf' ! (p + 2 + j) = buf ! (p + 2 + j)"
      by (intro Hp a(3)) simp_all
  qed
  show "bands_of buf = 1 \<longrightarrow>
          band_agree buf' buf (width_of buf * height_of buf) (band_pos buf 0)"
  proof
    assume b: "bands_of buf = 1"
    have "band_agree buf' buf n P0"
    proof (rule agree)
      show "61 \<le> P0" using ord by simp
      show "\<not> is_nodata buf P0" using N [of P0] b by auto
      fix j assume "j < n" "\<not> band_skipped (buf ! P0)"
      then show "\<not> is_tag buf (P0 + 2 + j) \<and> \<not> is_nodata buf (P0 + 2 + j)"
        using T [of "P0 + 2 + j"] N [of "P0 + 2 + j"] b by auto
    qed
    then show "band_agree buf' buf (width_of buf * height_of buf) (band_pos buf 0)"
      unfolding bp n_def .
  qed
  show "bands_of buf = 3 \<longrightarrow>
          band_agree buf' buf (width_of buf * height_of buf) (band_pos buf 0) \<and>
          band_agree buf' buf (width_of buf * height_of buf) (band_pos buf 1) \<and>
          band_agree buf' buf (width_of buf * height_of buf) (band_pos buf 2)"
  proof
    assume b: "bands_of buf = 3"
    have 0: "band_agree buf' buf n P0"
    proof (rule agree)
      show "61 \<le> P0" using ord by simp
      show "\<not> is_nodata buf P0" using N [of P0] ord by auto
      fix j assume "j < n" "\<not> band_skipped (buf ! P0)"
      then show "\<not> is_tag buf (P0 + 2 + j) \<and> \<not> is_nodata buf (P0 + 2 + j)"
        using T [of "P0 + 2 + j"] N [of "P0 + 2 + j"] ord by (auto simp: s0_def)
    qed
    have 1: "band_agree buf' buf n P1"
    proof (rule agree)
      show "61 \<le> P1" using ord by simp
      show "\<not> is_nodata buf P1" using N [of P1] ord by auto
      fix j assume "j < n" "\<not> band_skipped (buf ! P1)"
      then show "\<not> is_tag buf (P1 + 2 + j) \<and> \<not> is_nodata buf (P1 + 2 + j)"
        using T [of "P1 + 2 + j"] N [of "P1 + 2 + j"] ord by (auto simp: s1_def)
    qed
    have 2: "band_agree buf' buf n P2"
    proof (rule agree)
      show "61 \<le> P2" using ord by simp
      show "\<not> is_nodata buf P2" using N [of P2] ord by auto
      fix j assume "j < n" "\<not> band_skipped (buf ! P2)"
      then show "\<not> is_tag buf (P2 + 2 + j) \<and> \<not> is_nodata buf (P2 + 2 + j)"
        using T [of "P2 + 2 + j"] N [of "P2 + 2 + j"] ord by (auto simp: s2_def)
    qed
    from 0 1 2
    show "band_agree buf' buf (width_of buf * height_of buf) (band_pos buf 0) \<and>
          band_agree buf' buf (width_of buf * height_of buf) (band_pos buf 1) \<and>
          band_agree buf' buf (width_of buf * height_of buf) (band_pos buf 2)"
      unfolding bp n_def by blast
  qed
qed

lemma gray_le_fields:
  "header_ok gray_le_input" "bands_of gray_le_input = 1" "width_of gray_le_input = 1"
  "height_of gray_le_input = 2" "length gray_le_input = 65" "gray_le_input ! 61 = 0x43"
  by (simp_all add: gray_le_input_def header_ok_def hdr_fields hdr_u16_def hdr_f64_def
      read_uint16_def read_float64_def double_of_bits_def Let_def)

lemma is_tag_gray: "bands_of buf = 1 \<Longrightarrow> is_tag buf 61"
  by (simp add: is_tag_def)


section \<open>The claims\<close>

text \<open>
  C7. An input whose version field is not 0 makes \<^verbatim>\<open>get_raster\<close> return the null
  pointer with the version warning as its only diagnostic; the cursor stops right
  after the version field, and every input with the same first three bytes (the
  three-byte input among them) has the same outcome.
\<close>

theorem unsupported_version:
  assumes "3 \<le> length buf" and "version_of buf \<noteq> 0" and "take 3 buf' = take 3 buf"
  shows "decode buf = Some (None, \<lparr>wkb = buf, ptr = 3, numBands = 0, width = 0, height = 0,
                                   diags = [Warn_version (version_of buf)]\<rparr>) \<and>
         decode buf' = Some (None, \<lparr>wkb = buf', ptr = 3, numBands = 0, width = 0, height = 0,
                                    diags = [Warn_version (version_of buf)]\<rparr>)"
proof -
  have "length (take 3 buf') = 3" using assms(1,3) by simp
  then have len': "3 \<le> length buf'" by simp
  have e: "buf' ! i = buf ! i" if "i < 3" for i
    using that assms(3) by (metis nth_take)
  have v: "version_of buf' = version_of buf"
    unfolding version_of_def using assms(1) len' by (intro hdr_u16_cong e) simp_all
  show ?thesis
    using decode_version [OF assms(1,2)] decode_version [OF len', unfolded v, OF assms(2)]
    by (simp add: new_reader_def log_msg_def)
qed

theorem unsupported_version_witness:
  "decode [0, 0, 1] = Some (None, \<lparr>wkb = [0, 0, 1], ptr = 3, numBands = 0, width = 0,
                                    height = 0, diags = [Warn_version 1]\<rparr>) \<and>
   decode [0, 0, 1, 4, 7] = Some (None, \<lparr>wkb = [0, 0, 1, 4, 7], ptr = 3, numBands = 0,
                                          width = 0, height = 0, diags = [Warn_version 1]\<rparr>)"
proof -
  have v: "version_of [0, 0, 1] = 1"
    by (simp add: version_of_def hdr_u16_def read_uint16_def)
  show ?thesis
    using unsupported_version [of "[0, 0, 1]" "[0, 0, 1, 4, 7]"] by (simp add: v)
qed

text \<open>
  C8. When the header is accepted (version 0, no skew) and the band count is neither
  1 nor 3, \<^verbatim>\<open>get_raster\<close> returns the null pointer after the band-count warning,
  with the cursor at the end of the 61-byte header; every input with the same header
  has the same outcome, whatever follows the header.
\<close>

theorem unsupported_band_count:
  assumes "header_ok buf" and "bands_of buf \<noteq> 1" and "bands_of buf \<noteq> 3"
    and "take 61 buf' = take 61 buf"
  shows "decode buf = Some (None, log_msg (Warn_bands (bands_of buf)) (header_reader buf)) \<and>
         decode buf' = Some (None, log_msg (Warn_bands (bands_of buf))
                                     ((header_reader buf)\<lparr>wkb := buf'\<rparr>)) \<and>
         ptr (header_reader buf) = 61"
proof -
  from assms(1) have len: "61 \<le> length buf" by (simp add: header_ok_def)
  then have "length (take 61 buf') = 61" using assms(4) by simp
  then have len': "61 \<le> length buf'" by simp
  have all: "buf' ! i = buf ! i" if "i < 61" for i
    using that assms(4) by (metis nth_take)
  have e: "\<forall>i<61. i \<notin> {53, 54, 55, 56} \<longrightarrow> buf' ! i = buf ! i"
    using all by blast
  note h = header_cong [OF len len' e] header_cong' [OF len len' e]
  have srid: "srid_of buf' = srid_of buf"
    unfolding srid_of_def using len len' by (intro hdr_i32_cong all allI impI) simp_all
  have r: "header_reader buf' = (header_reader buf)\<lparr>wkb := buf'\<rparr>"
    by (simp add: header_reader_def h srid log_msg_def new_reader_def)
  have ok': "header_ok buf'" using assms(1) h by simp
  show ?thesis
    using decode_header [OF assms(1)] decode_header [OF ok'] assms(2,3)
    by (simp add: h r log_msg_def)
qed

lemma c8_header:
  "header_ok c8_input" "bands_of c8_input = 2"
  by (simp_all add: c8_input_def header_ok_def hdr_fields hdr_u16_def hdr_f64_def
      read_uint16_def read_float64_def double_of_bits_def Let_def)

theorem unsupported_band_count_witness:
  "decode c8_input = Some (None, log_msg (Warn_bands 2) (header_reader c8_input)) \<and>
   decode (c8_input @ [4, 0, 10, 20]) =
     Some (None, log_msg (Warn_bands 2) ((header_reader c8_input)\<lparr>wkb := c8_input @ [4, 0, 10, 20]\<rparr>))"
proof -
  have t: "take 61 (c8_input @ [4, 0, 10, 20]) = take 61 c8_input"
    by (simp add: c8_input_def)
  show ?thesis
    using unsupported_band_count [OF c8_header(1) _ _ t] by (simp add: c8_header)
qed







text \<open>
  C3. A band whose tag byte has bit 7 set: \<^verbatim>\<open>read_grayscale\<close> and the body of the band
  loop of \<^verbatim>\<open>read_rgb\<close> read the tag, log the band and the warning, and return (or
  continue with the next band) before the nodata byte is read. No later byte is
  consumed, the cursor is right after the one-byte tag, and the pixels are left as they
  were (all white for \<^verbatim>\<open>read_grayscale\<close>, which starts by whitening the image).
\<close>

theorem offline_band_cursor:
  "ptr rd < length (wkb rd) \<and> bit (wkb rd ! ptr rd) 7 \<longrightarrow>
     (\<exists>rd'. read_grayscale rd ras =
              Some (rd', ras\<lparr>data := image_set (data ras) 0xffffffff,
                               premultiplied_alpha := True\<rparr>) \<and>
            ptr rd' = ptr rd + 1 \<and> wkb rd' = wkb rd \<and>
            last (diags rd') = Warn_offline_band) \<and>
     (\<exists>rd'. rgb_band bn (rd, ras, nv) = Some (rd', ras, nv) \<and>
            ptr rd' = ptr rd + 1 \<and> wkb rd' = wkb rd \<and>
            last (diags rd') = Warn_offline_band_n bn)"
proof
  assume a: "ptr rd < length (wkb rd) \<and> bit (wkb rd ! ptr rd) 7"
  then have o: "BANDTYPE_IS_OFFDB (wkb rd ! ptr rd) \<noteq> 0" by (simp add: offdb_bit)
  show "(\<exists>rd'. read_grayscale rd ras =
              Some (rd', ras\<lparr>data := image_set (data ras) 0xffffffff,
                               premultiplied_alpha := True\<rparr>) \<and>
            ptr rd' = ptr rd + 1 \<and> wkb rd' = wkb rd \<and>
            last (diags rd') = Warn_offline_band) \<and>
     (\<exists>rd'. rgb_band bn (rd, ras, nv) = Some (rd', ras, nv) \<and>
            ptr rd' = ptr rd + 1 \<and> wkb rd' = wkb rd \<and>
            last (diags rd') = Warn_offline_band_n bn)"
    using a o by (simp add: read_grayscale_def rgb_band_def read_uint8_def log_msg_def Let_def)
qed

theorem offline_band_cursor_witness:
  "ptr offline_reader < length (wkb offline_reader) \<and>
   bit (wkb offline_reader ! ptr offline_reader) 7 \<and>
   (\<exists>rd'. read_grayscale offline_reader offline_raster =
            Some (rd', offline_raster\<lparr>data := [255, 255, 255, 255, 255, 255, 255, 255],
                                     premultiplied_alpha := True\<rparr>) \<and>
          ptr rd' = 1) \<and>
   (\<exists>rd'. rgb_band 1 (offline_reader, offline_raster, Some 9) =
            Some (rd', offline_raster, Some 9) \<and> ptr rd' = 1)"
proof -
  have h: "ptr offline_reader < length (wkb offline_reader) \<and>
           bit (wkb offline_reader ! ptr offline_reader) 7"
    by (simp add: offline_reader_def bit_iff_odd)
  have w: "image_set (data offline_raster) 0xffffffff = [255, 255, 255, 255, 255, 255, 255, 255]"
    unfolding image_set_white by (simp add: offline_raster_def)
  have p0: "ptr offline_reader = 0" by (simp add: offline_reader_def)
  from offline_band_cursor [of offline_reader offline_raster 1 "Some 9", THEN mp, OF h]
  have "(\<exists>rd'. read_grayscale offline_reader offline_raster =
            Some (rd', offline_raster\<lparr>data := [255, 255, 255, 255, 255, 255, 255, 255],
                                     premultiplied_alpha := True\<rparr>) \<and>
          ptr rd' = 1) \<and>
   (\<exists>rd'. rgb_band 1 (offline_reader, offline_raster, Some 9) =
            Some (rd', offline_raster, Some 9) \<and> ptr rd' = 1)"
    unfolding w p0 by auto
  with h show ?thesis by simp
qed

text \<open>
  The scenario of section 8 with the off-database bit set in its band tag (tag
  \<open>0x84\<close> at offset 61): the raster is returned all white with the cursor at offset
  62, right after the tag, and not at offset 63, after the nodata byte.
\<close>

theorem offline_band_cursor_counterexample:
  "bit (offline_input ! 61) 7 \<and>
   map_option (ptr \<circ> snd) (decode offline_input) = Some 62 \<and>
   map_option (map_option data \<circ> fst) (decode offline_input) =
     Some (Some [255, 255, 255, 255, 255, 255, 255, 255])"
proof -
  have h: "header_ok offline_input" "bands_of offline_input = 1" "width_of offline_input = 2"
    "height_of offline_input = 1"
    by (simp_all add: offline_input_def header_ok_def hdr_fields hdr_u16_def hdr_f64_def
        read_uint16_def read_float64_def double_of_bits_def Let_def)
  have t: "offline_input ! 61 = 0x84" "length offline_input = 65"
    by (simp_all add: offline_input_def)
  have b: "bit (0x84 :: uint8_t) 7" by (simp add: bit_iff_odd)
  then have s: "band_skipped 0x84" by (simp add: band_skipped_def offdb_bit)
  have w: "replicate 8 (0xff :: uint8_t) = [255, 255, 255, 255, 255, 255, 255, 255]"
    by (simp add: numeral_eq_Suc)
  have g: "gray_core offline_input 2 1 (61, data (white_raster offline_input)) =
           Some (62, replicate 8 0xff)"
    using s t h by (simp add: gray_core_def)
  from decode_gray [OF h(1,2), unfolded h(3,4) g]
  obtain r rd where "decode offline_input = Some (r, rd)"
    "r = Some ((white_raster offline_input)\<lparr>data := replicate 8 0xff\<rparr>)" "ptr rd = 62"
    by auto
  then show ?thesis using t b w by simp
qed

text \<open>
  C2. The extent of a returned raster is the \<^verbatim>\<open>box2d\<close> built from the corner (origin
  X, origin Y) and the corner (origin X + width \<open>\<times>\<close> scale X, origin Y + height \<open>\<times>\<close>
  scale Y), in \<^verbatim>\<open>double\<close> arithmetic. For the header with scale (2, -2), origin
  (0, 100), 10 columns and 5 rows, the second corner is (20, 90), and the extent is
  \<open>[0, 90]\<close>--\<open>[20, 100]\<close>.
\<close>

theorem extent_corners:
  "(decode buf = Some (Some r, rd) \<longrightarrow>
      ext r = box2d_init (ipX_of buf) (ipY_of buf)
                (dadd (ipX_of buf) (dmul (double_of_int (int (width_of buf))) (scaleX_of buf)))
                (dadd (ipY_of buf) (dmul (double_of_int (int (height_of buf))) (scaleY_of buf)))) \<and>
   scaleX_of c2_input = Finite False 2 \<and> scaleY_of c2_input = Finite True 2 \<and>
   ipX_of c2_input = Finite False 0 \<and> ipY_of c2_input = Finite False 100 \<and>
   width_of c2_input = 10 \<and> height_of c2_input = 5 \<and>
   (\<exists>r rd. decode c2_input = Some (Some r, rd) \<and>
      ext r = \<lparr>minx = Finite False 0, miny = Finite False 90,
               maxx = Finite False 20, maxy = Finite False 100\<rparr>)"
proof (intro conjI impI)
  assume "decode buf = Some (Some r, rd)"
  from decode_raster_frame [OF this]
  show "ext r = box2d_init (ipX_of buf) (ipY_of buf)
                (dadd (ipX_of buf) (dmul (double_of_int (int (width_of buf))) (scaleX_of buf)))
                (dadd (ipY_of buf) (dmul (double_of_int (int (height_of buf))) (scaleY_of buf)))"
    by (simp add: extent_of_def)
next
  note f = c2_fields [of "4 # 0 # replicate 50 7", folded c2_input_def]
  show "scaleX_of c2_input = Finite False 2" "scaleY_of c2_input = Finite True 2"
    "ipX_of c2_input = Finite False 0" "ipY_of c2_input = Finite False 100"
    "width_of c2_input = 10" "height_of c2_input = 5" by (rule f)+
  from c2_decodes obtain r rd where d: "decode c2_input = Some (Some r, rd)" by blast
  from decode_raster_frame [OF d]
  have "ext r = box2d_init (Finite False 0) (Finite False 100) (Finite False 20) (Finite False 90)"
    using c2_extent [of "4 # 0 # replicate 50 7", folded c2_input_def] by simp
  then have "ext r = \<lparr>minx = Finite False 0, miny = Finite False 90,
               maxx = Finite False 20, maxy = Finite False 100\<rparr>"
    by (simp add: box2d_init_def signed_def)
  with d show "\<exists>r rd. decode c2_input = Some (Some r, rd) \<and>
      ext r = \<lparr>minx = Finite False 0, miny = Finite False 90,
               maxx = Finite False 20, maxy = Finite False 100\<rparr>" by blast
qed

theorem extent_corners_witness:
  "\<exists>r rd. decode scenario = Some (Some r, rd) \<and>
     ext r = \<lparr>minx = Finite False 0, miny = Finite False 0,
              maxx = Finite False 2, maxy = Finite False 1\<rparr>"
proof -
  note f = scenario_fields
  have t: "BANDTYPE_IS_OFFDB (scenario ! 61) = 0" "BANDTYPE_PIXTYPE (scenario ! 61) = PT_8BUI"
    by (simp_all add: scenario_def big_band_fields)
  have l: "length scenario = 65" by (simp add: scenario_def)
  from decode_gray_valid [OF f(1,2) t(1)] t(2) f(3,4) l
  obtain r rd where d: "decode scenario = Some (Some r, rd)" by auto
  from extent_corners [of scenario r rd, THEN conjunct1, THEN mp, OF d]
  have "ext r = \<lparr>minx = Finite False 0, miny = Finite False 0,
              maxx = Finite False 2, maxy = Finite False 1\<rparr>"
    by (simp add: f scenario_arith box2d_init_def signed_def)
  with d show ?thesis by blast
qed

text \<open>
  The header of the claim, followed by one band of 50 payload bytes: the lower bound
  of the extent in Y is 90 = 100 + 5 \<open>\<times>\<close> (-2), not 0.
\<close>

theorem extent_corners_counterexample:
  "map_option (map_option ext \<circ> fst) (decode c2_input) =
     Some (Some \<lparr>minx = Finite False 0, miny = Finite False 90,
                  maxx = Finite False 20, maxy = Finite False 100\<rparr>) \<and>
   map_option (map_option ext \<circ> fst) (decode c2_input) \<noteq>
     Some (Some \<lparr>minx = Finite False 0, miny = Finite False 0,
                  maxx = Finite False 20, maxy = Finite False 100\<rparr>)"
proof -
  from c2_decodes obtain r rd where d: "decode c2_input = Some (Some r, rd)" by blast
  from decode_raster_frame [OF d]
  have "ext r = box2d_init (Finite False 0) (Finite False 100) (Finite False 20) (Finite False 90)"
    using c2_extent [of "4 # 0 # replicate 50 7", folded c2_input_def] by simp
  then have "ext r = \<lparr>minx = Finite False 0, miny = Finite False 90,
               maxx = Finite False 20, maxy = Finite False 100\<rparr>"
    by (simp add: box2d_init_def signed_def)
  with d show ?thesis by simp
qed

text \<open>
  C1. The primitive reads dereference the cursor without a check: a read is defined
  exactly when all its bytes lie inside the buffer, and the source has no
  end-of-input condition. A read past the end of the buffer is undefined behaviour,
  so \<^verbatim>\<open>get_raster\<close> returns only when every read was inside the buffer: the cursor
  it leaves is within the buffer, a null result comes from one of the three
  unsupported cases (version, rotation, band count), and a returned raster has its
  full pixel buffer.
\<close>

theorem unchecked_reads:
  "(read_uint8 buf p = None) = (length buf < p + 1) \<and>
   (read_uint16 buf e p = None) = (length buf < p + 2) \<and>
   (read_int32 buf e p = None) = (length buf < p + 4) \<and>
   (read_float64 buf e p = None) = (length buf < p + 8) \<and>
   (decode buf = Some (x, rd) \<longrightarrow>
      ptr rd \<le> length buf \<and>
      (x = None \<longrightarrow> (\<exists>v. last (diags rd) = Warn_version v) \<or>
                     last (diags rd) = Warn_rotation \<or>
                     (\<exists>n. last (diags rd) = Warn_bands n)) \<and>
      (\<forall>r. x = Some r \<longrightarrow> length (data r) = 4 * (rwidth r * rheight r)))"
proof (intro conjI impI allI)
  show "(read_uint8 buf p = None) = (length buf < p + 1)"
    by (auto simp: read_uint8_def)
  show "(read_uint16 buf e p = None) = (length buf < p + 2)"
    by (auto simp: read_uint16_def)
  show "(read_int32 buf e p = None) = (length buf < p + 4)"
    by (auto simp: read_int32_def read_uint32_def Let_def)
  show "(read_float64 buf e p = None) = (length buf < p + 8)"
    by (auto simp: read_float64_def Let_def)
next
  assume d: "decode buf = Some (x, rd)"
  from decode_returns [OF d] show "ptr rd \<le> length buf" by simp
next
  assume d: "decode buf = Some (x, rd)" and "x = None"
  with decode_returns [OF d]
  show "(\<exists>v. last (diags rd) = Warn_version v) \<or> last (diags rd) = Warn_rotation \<or>
        (\<exists>n. last (diags rd) = Warn_bands n)" by simp
next
  fix r assume d: "decode buf = Some (x, rd)" and "x = Some r"
  then have "decode buf = Some (Some r, rd)" by simp
  from decode_raster_frame [OF this]
  show "length (data r) = 4 * (rwidth r * rheight r)" by simp
qed

theorem unchecked_reads_witness:
  "decode c8_input = Some (None, log_msg (Warn_bands 2) (header_reader c8_input)) \<and>
   ptr (log_msg (Warn_bands 2) (header_reader c8_input)) \<le> length c8_input \<and>
   last (diags (log_msg (Warn_bands 2) (header_reader c8_input))) = Warn_bands 2 \<and>
   (\<exists>r rd. decode scenario = Some (Some r, rd) \<and> ptr rd \<le> length scenario \<and>
      length (data r) = 4 * (rwidth r * rheight r)) \<and>
   read_uint8 scenario 65 = None"
proof -
  let ?rd = "log_msg (Warn_bands 2) (header_reader c8_input)"
  have d: "decode c8_input = Some (None, ?rd)"
    using decode_header [OF c8_header(1)] by (simp add: c8_header)
  note u = unchecked_reads [of c8_input _ _ None ?rd, THEN conjunct2, THEN conjunct2,
      THEN conjunct2, THEN conjunct2, THEN mp, OF d]
  have 1: "ptr ?rd \<le> length c8_input" using u by simp
  have 2: "last (diags ?rd) = Warn_bands 2" by (simp add: log_msg_def)
  note f = scenario_fields
  have t: "BANDTYPE_IS_OFFDB (scenario ! 61) = 0" "BANDTYPE_PIXTYPE (scenario ! 61) = PT_8BUI"
    by (simp_all add: scenario_def big_band_fields)
  have l: "length scenario = 65" by (simp add: scenario_def)
  from decode_gray_valid [OF f(1,2) t(1)] t(2) f(3,4) l
  obtain r rd where d': "decode scenario = Some (Some r, rd)" by auto
  note u' = unchecked_reads [of scenario _ _ "Some r" rd, THEN conjunct2, THEN conjunct2,
      THEN conjunct2, THEN conjunct2, THEN mp, OF d']
  have 3: "\<exists>r rd. decode scenario = Some (Some r, rd) \<and> ptr rd \<le> length scenario \<and>
      length (data r) = 4 * (rwidth r * rheight r)"
    using d' u' by blast
  have 4: "read_uint8 scenario 65 = None"
    using unchecked_reads [of scenario 65, THEN conjunct1] l by simp
  from d 1 2 3 4 show ?thesis by simp
qed

text \<open>
  The scenario of section 8 cut one byte short: the header is accepted and the band is
  processed, and the read of the second pixel byte, at offset 64, is outside the
  buffer. \<^verbatim>\<open>get_raster\<close> reports no condition and returns nothing that is defined.
\<close>

theorem unchecked_reads_counterexample:
  "truncated_input = butlast scenario \<and> length truncated_input = 64 \<and>
   header_ok truncated_input \<and> bands_of truncated_input = 1 \<and>
   width_of truncated_input = 2 \<and> height_of truncated_input = 1 \<and>
   \<not> band_skipped (truncated_input ! 61) \<and>
   read_uint8 truncated_input 64 = None \<and> decode truncated_input = None"
proof -
  have h: "header_ok truncated_input" "bands_of truncated_input = 1"
    "width_of truncated_input = 2" "height_of truncated_input = 1"
    by (simp_all add: truncated_input_def header_ok_def hdr_fields hdr_u16_def hdr_f64_def
        read_uint16_def read_float64_def double_of_bits_def Let_def)
  have t: "truncated_input ! 61 = 4" "length truncated_input = 64"
    "truncated_input = butlast scenario"
    by (simp_all add: truncated_input_def scenario_def)
  have s: "\<not> band_skipped (truncated_input ! 61)" unfolding t(1) by (rule big_band_fields)
  have "gray_core truncated_input 2 1 (61, data (white_raster truncated_input)) = None"
    using s t(2) by (simp add: gray_core_def)
  with decode_gray [OF h(1,2), unfolded h(3,4)] have "decode truncated_input = None" by simp
  with h t s show ?thesis by (simp add: read_uint8_def)
qed

text \<open>
  C10. Two inputs of the same length that differ only in the four bytes of the spatial
  reference id (offsets 53 to 56 of the header) and in bits 6, 5 and 4 of band tags
  (the tag bytes agree under the mask \<open>0x8F\<close>) have the same outcome: the same null
  pointer or the same raster (extent, size and pixel bytes), with the cursor at the
  same offset.
\<close>

theorem srid_and_flags_irrelevant:
  "length buf' = length buf \<and>
   (\<forall>i<length buf. buf' ! i = buf ! i \<or> i \<in> {53, 54, 55, 56} \<or>
        (is_tag buf i \<and> buf' ! i AND 0x8F = buf ! i AND 0x8F)) \<longrightarrow>
   outcome (decode buf') = outcome (decode buf)"
proof
  assume a: "length buf' = length buf \<and>
   (\<forall>i<length buf. buf' ! i = buf ! i \<or> i \<in> {53, 54, 55, 56} \<or>
        (is_tag buf i \<and> buf' ! i AND 0x8F = buf ! i AND 0x8F))"
  then have len: "length buf' = length buf" by simp
  have "\<forall>i<length buf. buf' ! i = buf ! i \<or> i \<in> {53, 54, 55, 56} \<or>
              (is_tag buf i \<and> band_skipped (buf' ! i) = band_skipped (buf ! i)) \<or>
              is_nodata buf i"
  proof (intro allI impI)
    fix i assume "i < length buf"
    with a have "buf' ! i = buf ! i \<or> i \<in> {53, 54, 55, 56} \<or>
        (is_tag buf i \<and> buf' ! i AND 0x8F = buf ! i AND 0x8F)" by blast
    then show "buf' ! i = buf ! i \<or> i \<in> {53, 54, 55, 56} \<or>
              (is_tag buf i \<and> band_skipped (buf' ! i) = band_skipped (buf ! i)) \<or>
              is_nodata buf i"
      using band_skipped_mask [of "buf' ! i" "buf ! i"] by blast
  qed
  with len show "outcome (decode buf') = outcome (decode buf)" by (rule decode_cong_bytes)
qed

theorem srid_and_flags_irrelevant_witness:
  "is_tag gray_le_input 61 \<and> gray_le_input ! 61 = 0x43 \<and>
   gray_le_input ! 53 = 0xE6 \<and> gray_le_input ! 54 = 0x10 \<and>
   outcome (decode (gray_le_input[53 := 1, 54 := 2, 61 := 0x33])) =
     outcome (decode gray_le_input)"
proof -
  note f = gray_le_fields
  have t: "is_tag gray_le_input 61" using f(2) by (rule is_tag_gray)
  have s: "gray_le_input ! 53 = 0xE6" "gray_le_input ! 54 = 0x10"
    by (simp_all add: gray_le_input_def)
  have m: "(0x33 :: uint8_t) AND 0x8F = 0x43 AND 0x8F" by simp
  have "length (gray_le_input[53 := 1, 54 := 2, 61 := 0x33]) = length gray_le_input \<and>
   (\<forall>i<length gray_le_input.
        gray_le_input[53 := 1, 54 := 2, 61 := 0x33] ! i = gray_le_input ! i \<or>
        i \<in> {53, 54, 55, 56} \<or>
        (is_tag gray_le_input i \<and>
         gray_le_input[53 := 1, 54 := 2, 61 := 0x33] ! i AND 0x8F = gray_le_input ! i AND 0x8F))"
    using t m f(5,6) by (auto simp: nth_list_update)
  from srid_and_flags_irrelevant [THEN mp, OF this] t s f(6) show ?thesis by simp
qed



end
